theory Spec2Isabelle
  imports Main
begin

section \<open>Values, objects and reactive members\<close>

text \<open>
  The engine is JavaScript. A value is a primitive or a reference to an object on the
  heap; numbers are modelled as integers plus the one non-number \<open>NaN\<close> that the write
  interceptor treats specially. Identity (\<open>===\<close>) on references is equality of
  addresses.
\<close>

datatype val = Undefined | Null | Bool bool | Num int | NaN | Str string | Ref nat

text \<open>\<open>a === b\<close>: every value is identical to itself except \<open>NaN\<close>.\<close>

definition strict_eq :: "val \<Rightarrow> val \<Rightarrow> bool" where
  "strict_eq a b = (a = b \<and> a \<noteq> NaN)"

text \<open>
  A property key. \<open>Index n\<close> stands for a key that \<open>isValidArrayIndex\<close> accepts (a
  finite non-negative integer, given as a number or as its decimal string), \<open>Name s\<close> for
  every other key.
\<close>

datatype pkey = Index nat | Name string

text \<open>
  The closure that \<open>defineReactive\<close> builds for one member: its private \<open>Dep\<close>, the
  captured \<open>val\<close>, \<open>childOb\<close> (the address of the observed child, when there is one),
  \<open>shallow\<close>, and the accessor pair found on the property before the interceptors were
  installed. A user accessor is modelled by a backing slot: its getter returns the
  slot, its setter stores into it.
\<close>

record reactive =
  r_dep :: nat
  r_val :: val
  r_childOb :: "nat option"
  r_shallow :: bool
  r_getter :: bool
  r_setter :: bool
  r_backing :: val

text \<open>
  An own property: a data property (with its \<open>configurable\<close> attribute), an accessor
  property (configurable, has getter, has setter, backing slot), or a member that
  \<open>defineReactive\<close> has converted.
\<close>

datatype property =
    Data bool val
  | Accessor bool bool bool val
  | Reactive reactive

text \<open>The \<open>Observer\<close> attached to an object as \<open>__ob__\<close>; its \<open>value\<close> is that object.\<close>

record observer =
  ob_dep :: nat
  vmCount :: nat

record obj =
  isArray :: bool
  isPlain :: bool
  isVNode :: bool
  isVue :: bool
  extensible :: bool
  props :: "(pkey \<times> property) list"
  elems :: "val list"
  proto_keys :: "pkey list"
  ob :: "observer option"

type_synonym heap = "obj list"

section \<open>Watchers, the scheduler and the engine state\<close>

text \<open>
  User code is not part of the engine. What the engine sees of a getter is the sequence
  of \<open>Dep\<close>s whose \<open>depend()\<close> fires while it runs and the value it returns, both
  determined by the reactive store; what it sees of a callback is the sequence of
  mutations it performs. Getters and callbacks are taken to return normally.
\<close>

datatype array_method = Push "val list" | Pop | Shift | Unshift "val list"
  | Splice int "int option" "val list" | Sort "val list \<Rightarrow> val list" | Reverse

datatype action =
    Assign nat pkey val
  | Mutate nat array_method
  | SetKey nat pkey val

record watcher =
  deep :: bool
  user :: bool
  lazy :: bool
  sync :: bool
  before :: bool
  dirty :: bool
  active :: bool
  deps :: "nat list"
  newDeps :: "nat list"
  depIds :: "nat set"
  newDepIds :: "nat set"
  "value" :: val
  getter :: "heap \<Rightarrow> nat list \<times> val"
  cb :: "val \<Rightarrow> val \<Rightarrow> heap \<Rightarrow> action list"

datatype event =
    Notify nat
  | Eval nat
  | Callback nat val val
  | Before nat
  | Warn string

text \<open>
  The module state of \<open>scheduler.js\<close> and of the microtask batcher. \<open>has\<close> maps an id
  to \<open>true\<close> or to \<open>null\<close>/nothing and is only ever tested with \<open>== null\<close>, so it is
  the set of ids mapped to \<open>true\<close>. The only callback the engine itself hands to
  \<open>nextTick\<close> is \<open>flushSchedulerQueue\<close>; \<open>callbacks\<close> counts how many are waiting.
  Two fields are ghosts: \<open>timers\<close> counts the calls of \<open>timerFunc\<close>, and \<open>ran\<close> lists
  the ids on which the flush loop has called \<open>run()\<close>.
\<close>

record sched =
  queue :: "nat list"
  has :: "nat set"
  circular :: "nat \<Rightarrow> nat option"
  waiting :: bool
  flushing :: bool
  index :: nat
  callbacks :: nat
  pending :: bool
  timers :: nat
  ran :: "nat list"

text \<open>
  The whole state. Watchers and \<open>Dep\<close>s are identified by their ids. \<open>traverse\<close>
  stands for the module \<open>./traverse\<close>, which is not among the sources: the \<open>Dep\<close>s whose
  \<open>depend()\<close> fires while it walks a value. \<open>events\<close> is a ghost trace.
\<close>

record state =
  heap :: heap
  dep_uid :: nat
  subs :: "nat \<Rightarrow> nat list"
  watcher_uid :: nat
  watchers :: "nat \<Rightarrow> watcher"
  target :: "nat option"
  targetStack :: "nat option list"
  sch :: sched
  events :: "event list"
  production :: bool
  async :: bool
  shouldObserve :: bool
  serverRendering :: bool
  traverse :: "heap \<Rightarrow> val \<Rightarrow> nat list"

definition emit :: "event \<Rightarrow> state \<Rightarrow> state" where
  "emit e s = s\<lparr>events := events s @ [e]\<rparr>"

definition upd_watcher :: "nat \<Rightarrow> (watcher \<Rightarrow> watcher) \<Rightarrow> state \<Rightarrow> state" where
  "upd_watcher w f s = s\<lparr>watchers := (watchers s)(w := f (watchers s w))\<rparr>"

section \<open>dep.js\<close>

definition new_Dep :: "state \<Rightarrow> nat \<times> state" where
  "new_Dep s = (dep_uid s, s\<lparr>dep_uid := dep_uid s + 1, subs := (subs s)(dep_uid s := [])\<rparr>)"

definition addSub :: "nat \<Rightarrow> nat \<Rightarrow> state \<Rightarrow> state" where
  "addSub d w s = s\<lparr>subs := (subs s)(d := subs s d @ [w])\<rparr>"

text \<open>
  Modelled from the spec: the helper \<open>remove\<close> of \<open>util\<close> is not among the sources;
  removal takes out exactly one reference and is a no-op if the item is absent.
\<close>

definition remove :: "'a list \<Rightarrow> 'a \<Rightarrow> 'a list" where
  "remove arr item = remove1 item arr"

definition removeSub :: "nat \<Rightarrow> nat \<Rightarrow> state \<Rightarrow> state" where
  "removeSub d w s = s\<lparr>subs := (subs s)(d := remove (subs s d) w)\<rparr>"

definition pushTarget :: "nat option \<Rightarrow> state \<Rightarrow> state" where
  "pushTarget t s = s\<lparr>targetStack := targetStack s @ [t], target := t\<rparr>"

definition popTarget :: "state \<Rightarrow> state" where
  "popTarget s =
     (let st = butlast (targetStack s)
      in s\<lparr>targetStack := st, target := (if st = [] then None else last st)\<rparr>)"

section \<open>The watcher: dependency collection\<close>

definition addDep :: "nat \<Rightarrow> nat \<Rightarrow> state \<Rightarrow> state" where
  "addDep w d s =
     (if d \<notin> newDepIds (watchers s w) then
        let s1 = upd_watcher w (\<lambda>W. W\<lparr>newDepIds := insert d (newDepIds W),
                                        newDeps := newDeps W @ [d]\<rparr>) s
        in if d \<notin> depIds (watchers s w) then addSub d w s1 else s1
      else s)"

definition depend :: "nat \<Rightarrow> state \<Rightarrow> state" where
  "depend d s = (case target s of Some w \<Rightarrow> addDep w d s | None \<Rightarrow> s)"

definition cleanupDeps :: "nat \<Rightarrow> state \<Rightarrow> state" where
  "cleanupDeps w s =
     (let s1 = fold (\<lambda>d s'. if d \<notin> newDepIds (watchers s' w) then removeSub d w s' else s')
                    (rev (deps (watchers s w))) s
      in upd_watcher w (\<lambda>W. W\<lparr>depIds := newDepIds W, newDepIds := {},
                                 deps := newDeps W, newDeps := []\<rparr>) s1)"

text \<open>
  The \<open>Dep\<close>s whose \<open>depend()\<close> fires during one evaluation of the watcher in the
  current store: those of the getter, then those of \<open>traverse\<close> for a deep watcher.
\<close>

definition reads :: "nat \<Rightarrow> state \<Rightarrow> nat list" where
  "reads w s =
     (let r = getter (watchers s w) (heap s)
      in if deep (watchers s w) then fst r @ traverse s (heap s) (snd r) else fst r)"

definition get :: "nat \<Rightarrow> state \<Rightarrow> val \<times> state" where
  "get w s =
     (let s1 = pushTarget (Some w) s;
          v = snd (getter (watchers s1 w) (heap s1));
          s2 = fold depend (reads w s1) (emit (Eval w) s1);
          s3 = popTarget s2
      in (v, cleanupDeps w s3))"

record options =
  o_deep :: bool
  o_user :: bool
  o_lazy :: bool
  o_sync :: bool
  o_before :: bool

definition new_Watcher ::
  "(heap \<Rightarrow> nat list \<times> val) \<Rightarrow> (val \<Rightarrow> val \<Rightarrow> heap \<Rightarrow> action list) \<Rightarrow> options option
     \<Rightarrow> state \<Rightarrow> nat \<times> state" where
  "new_Watcher g c opts s =
     (let w = watcher_uid s + 1;
          flag = (\<lambda>f. case opts of Some o' \<Rightarrow> f o' | None \<Rightarrow> False);
          W = \<lparr>deep = flag o_deep, user = flag o_user, lazy = flag o_lazy, sync = flag o_sync,
               before = flag o_before, dirty = flag o_lazy, active = True,
               deps = [], newDeps = [], depIds = {}, newDepIds = {},
               value = Undefined, getter = g, cb = c\<rparr>;
          s1 = s\<lparr>watcher_uid := w, watchers := (watchers s)(w := W)\<rparr>
      in if lazy W then (w, s1)
         else (let (v, s2) = get w s1 in (w, upd_watcher w (\<lambda>W. W\<lparr>value := v\<rparr>) s2)))"

definition evaluate :: "nat \<Rightarrow> state \<Rightarrow> state" where
  "evaluate w s =
     (let (v, s1) = get w s in upd_watcher w (\<lambda>W. W\<lparr>value := v, dirty := False\<rparr>) s1)"

definition watcher_depend :: "nat \<Rightarrow> state \<Rightarrow> state" where
  "watcher_depend w s = fold depend (rev (deps (watchers s w))) s"

definition teardown :: "nat \<Rightarrow> state \<Rightarrow> state" where
  "teardown w s =
     (if active (watchers s w) then
        upd_watcher w (\<lambda>W. W\<lparr>active := False\<rparr>)
          (fold (\<lambda>d. removeSub d w) (rev (deps (watchers s w))) s)
      else s)"

text \<open>
  \<open>createComputedGetter\<close>: the read of a derived value; the argument is the watcher
  found in \<open>_computedWatchers\<close>, if any.
\<close>

definition computedGetter :: "nat option \<Rightarrow> state \<Rightarrow> val \<times> state" where
  "computedGetter wo s =
     (case wo of
        None \<Rightarrow> (Undefined, s)
      | Some w \<Rightarrow>
          let s1 = (if dirty (watchers s w) then evaluate w s else s);
              s2 = (if target s1 \<noteq> None then watcher_depend w s1 else s1)
          in (value (watchers s2 w), s2))"


section \<open>scheduler.js and the microtask batcher\<close>

definition MAX_UPDATE_COUNT :: nat where
  "MAX_UPDATE_COUNT = 100"

text \<open>\<open>nextTick(flushSchedulerQueue)\<close>.\<close>

definition nextTick :: "sched \<Rightarrow> sched" where
  "nextTick q =
     (let q1 = q\<lparr>callbacks := callbacks q + 1\<rparr>
      in if \<not> pending q1 then q1\<lparr>pending := True, timers := timers q1 + 1\<rparr> else q1)"

text \<open>
  The backward scan of \<open>queueWatcher\<close>. The source's \<open>i\<close> starts at
  \<open>queue.length - 1\<close> and may end at \<open>-1\<close>; the argument here is \<open>i + 1\<close>, and the
  result is the position \<open>i + 1\<close> handed to \<open>splice\<close>.
\<close>

primrec insert_pos :: "nat list \<Rightarrow> nat \<Rightarrow> nat \<Rightarrow> nat \<Rightarrow> nat" where
  "insert_pos q idx w 0 = 0"
| "insert_pos q idx w (Suc i) = (if i > idx \<and> q ! i > w then insert_pos q idx w i else Suc i)"

definition queueWatcher :: "nat \<Rightarrow> sched \<Rightarrow> sched" where
  "queueWatcher w q =
     (if w \<notin> has q then
        let q1 = q\<lparr>has := insert w (has q)\<rparr>;
            q2 = (if \<not> flushing q1 then q1\<lparr>queue := queue q1 @ [w]\<rparr>
                  else let j = insert_pos (queue q1) (index q1) w (length (queue q1))
                       in q1\<lparr>queue := take j (queue q1) @ [w] @ drop j (queue q1)\<rparr>)
        in if \<not> waiting q2 then nextTick (q2\<lparr>waiting := True\<rparr>) else q2
      else q)"

definition resetSchedulerState :: "bool \<Rightarrow> sched \<Rightarrow> sched" where
  "resetSchedulerState isProd q =
     q\<lparr>index := 0, queue := [], has := {},
       circular := (if \<not> isProd then (\<lambda>_. None) else circular q),
       waiting := False, flushing := False\<rparr>"

section \<open>The observer: wrapping composite values\<close>

definition obj_at :: "state \<Rightarrow> nat \<Rightarrow> obj option" where
  "obj_at s a = (if a < length (heap s) then Some (heap s ! a) else None)"

definition upd_obj :: "nat \<Rightarrow> (obj \<Rightarrow> obj) \<Rightarrow> state \<Rightarrow> state" where
  "upd_obj a f s = s\<lparr>heap := (heap s)[a := f (heap s ! a)]\<rparr>"

text \<open>Defining a property keeps its place among the keys, or adds it at the end.\<close>

primrec put :: "pkey \<Rightarrow> property \<Rightarrow> (pkey \<times> property) list \<Rightarrow> (pkey \<times> property) list" where
  "put k p [] = [(k, p)]"
| "put k p (x # xs) = (if fst x = k then (k, p) # xs else x # put k p xs)"

definition set_prop :: "nat \<Rightarrow> pkey \<Rightarrow> property \<Rightarrow> state \<Rightarrow> state" where
  "set_prop a k p s = upd_obj a (\<lambda>obj. obj\<lparr>props := put k p (props obj)\<rparr>) s"

text \<open>
  Modelled from the spec: \<open>isObject\<close> of \<open>util\<close> is not among the sources; composite
  values are the references, primitives are everything else.
\<close>

definition isObject :: "val \<Rightarrow> bool" where
  "isObject v = (case v of Ref _ \<Rightarrow> True | _ \<Rightarrow> False)"

text \<open>A \<open>for\<close> loop over a list whose body may fail to return.\<close>

primrec each :: "('a \<Rightarrow> 's \<Rightarrow> 's option) \<Rightarrow> 'a list \<Rightarrow> 's \<Rightarrow> 's option" where
  "each f [] s = Some s"
| "each f (x # xs) s = (case f x s of None \<Rightarrow> None | Some s' \<Rightarrow> each f xs s')"

text \<open>The value that \<open>obj[key]\<close> reads from an own property.\<close>

definition prop_value :: "property option \<Rightarrow> val" where
  "prop_value p =
     (case p of
        None \<Rightarrow> Undefined
      | Some (Data c x) \<Rightarrow> x
      | Some (Accessor c g st b) \<Rightarrow> (if g then b else Undefined)
      | Some (Reactive r) \<Rightarrow> (if r_getter r then r_backing r else r_val r))"

text \<open>
  \<open>defineReactive(obj, key, val, customSetter, shallow)\<close>. The argument \<open>vopt\<close> is
  \<open>None\<close> for a call with two arguments. \<open>obs\<close> is \<open>observe\<close> for the nested call. A
  property that is already reactive counts as an accessor pair over its current
  value.
\<close>

definition defineReactive ::
  "(val \<Rightarrow> state \<Rightarrow> (nat option \<times> state) option) \<Rightarrow> nat \<Rightarrow> pkey \<Rightarrow> val option \<Rightarrow> bool
     \<Rightarrow> state \<Rightarrow> state option" where
  "defineReactive obs a k vopt shallow s =
     (let (d, s1) = new_Dep s
      in case obj_at s1 a of
           None \<Rightarrow> Some s1
         | Some obj \<Rightarrow>
             let property = map_of (props obj) k
             in if (case property of Some (Data c x) \<Rightarrow> \<not> c
                     | Some (Accessor c g st b) \<Rightarrow> \<not> c | _ \<Rightarrow> False)
                then Some s1
                else
                  let g = (case property of Some (Accessor c g st b) \<Rightarrow> g
                            | Some (Reactive r) \<Rightarrow> True | _ \<Rightarrow> False);
                      st = (case property of Some (Accessor c g st b) \<Rightarrow> st
                            | Some (Reactive r) \<Rightarrow> True | _ \<Rightarrow> False);
                      b = (case property of Some (Accessor c g st b) \<Rightarrow> b
                            | Some (Reactive r) \<Rightarrow> prop_value property | _ \<Rightarrow> Undefined);
                      v = (case vopt of
                             Some x \<Rightarrow> x
                           | None \<Rightarrow> if \<not> g \<or> st then prop_value property else Undefined)
                  in case (if shallow then Some (None, s1) else obs v s1) of
                       None \<Rightarrow> None
                     | Some (childOb, s2) \<Rightarrow>
                         Some (set_prop a k
                           (Reactive \<lparr>r_dep = d, r_val = v, r_childOb = childOb,
                                      r_shallow = shallow, r_getter = g, r_setter = st,
                                      r_backing = b\<rparr>) s2))"

definition observeArray ::
  "(val \<Rightarrow> state \<Rightarrow> (nat option \<times> state) option) \<Rightarrow> val list \<Rightarrow> state \<Rightarrow> state option" where
  "observeArray obs items s = each (\<lambda>x s'. map_option snd (obs x s')) items s"

definition walk ::
  "(val \<Rightarrow> state \<Rightarrow> (nat option \<times> state) option) \<Rightarrow> nat \<Rightarrow> state \<Rightarrow> state option" where
  "walk obs a s = each (\<lambda>k. defineReactive obs a k None False) (map fst (props (heap s ! a))) s"

text \<open>The constructor of \<open>Observer\<close> for the object at address \<open>a\<close>.\<close>

definition new_Observer ::
  "(val \<Rightarrow> state \<Rightarrow> (nat option \<times> state) option) \<Rightarrow> nat \<Rightarrow> state \<Rightarrow> state option" where
  "new_Observer obs a s =
     (let (d, s1) = new_Dep s;
          s2 = upd_obj a (\<lambda>obj. obj\<lparr>ob := Some \<lparr>ob_dep = d, vmCount = 0\<rparr>\<rparr>) s1
      in if isArray (heap s2 ! a) then observeArray obs (elems (heap s2 ! a)) s2
         else walk obs a s2)"

text \<open>
  \<open>observe(value, asRootData)\<close>; the result is the address of the object that carries
  the observer, if there is one.
\<close>

definition observe_body ::
  "(val \<Rightarrow> state \<Rightarrow> (nat option \<times> state) option) \<Rightarrow> val \<Rightarrow> bool \<Rightarrow> state
     \<Rightarrow> (nat option \<times> state) option" where
  "observe_body obs v asRootData s =
     (case v of
        Ref a \<Rightarrow>
          (case obj_at s a of
             None \<Rightarrow> Some (None, s)
           | Some obj \<Rightarrow>
               if isVNode obj then Some (None, s)
               else
                 (case (if ob obj \<noteq> None then Some (Some a, s)
                        else if shouldObserve s \<and> \<not> serverRendering s \<and>
                                (isArray obj \<or> isPlain obj) \<and> extensible obj \<and> \<not> isVue obj
                             then map_option (Pair (Some a)) (new_Observer obs a s)
                             else Some (None, s)) of
                    None \<Rightarrow> None
                  | Some (r, s1) \<Rightarrow>
                      Some (r, if asRootData \<and> r \<noteq> None
                               then upd_obj a (\<lambda>obj. obj\<lparr>ob := map_option
                                      (\<lambda>b. b\<lparr>vmCount := vmCount b + 1\<rparr>) (ob obj)\<rparr>) s1
                               else s1)))
      | _ \<Rightarrow> Some (None, s))"

text \<open>
  The recursion of \<open>observe\<close> through nested composites, by depth. Every descent
  first marks an object that had no observer, and no object is created on the way,
  so a depth of the size of the heap is never exhausted (\<open>observe_total\<close> below).
\<close>

primrec observe_fuel :: "nat \<Rightarrow> val \<Rightarrow> state \<Rightarrow> (nat option \<times> state) option" where
  "observe_fuel 0 v s = observe_body (\<lambda>_ _. None) v False s"
| "observe_fuel (Suc n) v s = observe_body (observe_fuel n) v False s"

definition observe :: "val \<Rightarrow> bool \<Rightarrow> state \<Rightarrow> (nat option \<times> state) option" where
  "observe v asRootData s = observe_body (observe_fuel (length (heap s))) v asRootData s"

section \<open>array.js and the host's array methods\<close>

definition set_elems :: "nat \<Rightarrow> val list \<Rightarrow> state \<Rightarrow> state" where
  "set_elems a xs s = upd_obj a (\<lambda>obj. obj\<lparr>elems := xs\<rparr>) s"

definition new_array :: "val list \<Rightarrow> state \<Rightarrow> nat \<times> state" where
  "new_array xs s =
     (length (heap s),
      s\<lparr>heap := heap s @ [\<lparr>isArray = True, isPlain = False, isVNode = False, isVue = False,
                            extensible = True, props = [], elems = xs, proto_keys = [],
                            ob = None\<rparr>]\<rparr>)"

definition splice_start :: "int \<Rightarrow> nat \<Rightarrow> nat" where
  "splice_start st len = (if st < 0 then nat (max (int len + st) 0) else min (nat st) len)"

definition splice_count :: "int option \<Rightarrow> nat \<Rightarrow> nat \<Rightarrow> nat" where
  "splice_count dc len i = (case dc of None \<Rightarrow> len - i | Some c \<Rightarrow> min (nat (max c 0)) (len - i))"

text \<open>
  \<open>original.apply(this, args)\<close>: the method of \<open>Array.prototype\<close>, with its result.
  \<open>Sort f\<close> carries what the host's sort does to the elements under the caller's
  comparator.
\<close>

definition native :: "nat \<Rightarrow> array_method \<Rightarrow> state \<Rightarrow> val \<times> state" where
  "native a m s =
     (let xs = elems (heap s ! a)
      in case m of
           Push args \<Rightarrow> (Num (int (length xs + length args)), set_elems a (xs @ args) s)
         | Pop \<Rightarrow> (if xs = [] then (Undefined, s) else (last xs, set_elems a (butlast xs) s))
         | Shift \<Rightarrow> (case xs of [] \<Rightarrow> (Undefined, s) | x # r \<Rightarrow> (x, set_elems a r s))
         | Unshift args \<Rightarrow> (Num (int (length args + length xs)), set_elems a (args @ xs) s)
         | Splice st dc items \<Rightarrow>
             (let i = splice_start st (length xs);
                  c = splice_count dc (length xs) i;
                  (r, s1) = new_array (take c (drop i xs))
                              (set_elems a (take i xs @ items @ drop (i + c) xs) s)
              in (Ref r, s1))
         | Sort f \<Rightarrow> (Ref a, set_elems a (f xs) s)
         | Reverse \<Rightarrow> (Ref a, set_elems a (rev xs) s))"

text \<open>\<open>inserted\<close> of the \<open>mutator\<close>.\<close>

definition inserted :: "array_method \<Rightarrow> val list option" where
  "inserted m =
     (case m of Push args \<Rightarrow> Some args | Unshift args \<Rightarrow> Some args
      | Splice st dc items \<Rightarrow> Some items | _ \<Rightarrow> None)"

section \<open>Notification, update and run\<close>

text \<open>
  The functions below call each other in a cycle that passes through \<open>run()\<close> of a
  \<open>sync\<close> watcher. The argument \<open>R\<close> stands for that nested \<open>run\<close>; \<open>run\<close> itself is
  then defined by the depth of the nesting.
\<close>

definition update :: "(nat \<Rightarrow> state \<Rightarrow> state option) \<Rightarrow> nat \<Rightarrow> state \<Rightarrow> state option" where
  "update R w s =
     (if lazy (watchers s w) then Some (upd_watcher w (\<lambda>W. W\<lparr>dirty := True\<rparr>) s)
      else if sync (watchers s w) then R w s
      else Some (s\<lparr>sch := queueWatcher w (sch s)\<rparr>))"

definition notify :: "(nat \<Rightarrow> state \<Rightarrow> state option) \<Rightarrow> nat \<Rightarrow> state \<Rightarrow> state option" where
  "notify R d s =
     (let snapshot = subs s d;
          sorted = (if \<not> production s \<and> \<not> async s then sort snapshot else snapshot)
      in each (update R) sorted (emit (Notify d) s))"

text \<open>The assignment to the closure variable \<open>childOb\<close> of the member \<open>k\<close> of the object at \<open>a\<close>.\<close>

definition set_childOb :: "nat \<Rightarrow> pkey \<Rightarrow> nat option \<Rightarrow> state \<Rightarrow> state" where
  "set_childOb a k childOb s =
     (case map_of (props (heap s ! a)) k of
        Some (Reactive r) \<Rightarrow> set_prop a k (Reactive (r\<lparr>r_childOb := childOb\<rparr>)) s
      | _ \<Rightarrow> s)"

text \<open>The write interceptor of the member \<open>k\<close> of the object at \<open>a\<close>, whose closure is \<open>r\<close>.\<close>

definition reactiveSetter ::
  "(nat \<Rightarrow> state \<Rightarrow> state option) \<Rightarrow> nat \<Rightarrow> pkey \<Rightarrow> reactive \<Rightarrow> val \<Rightarrow> state \<Rightarrow> state option" where
  "reactiveSetter R a k r newVal s =
     (let v = (if r_getter r then r_backing r else r_val r)
      in if strict_eq newVal v \<or> (\<not> strict_eq newVal newVal \<and> \<not> strict_eq v v) then Some s
         else if r_getter r \<and> \<not> r_setter r then Some s
         else
           let r1 = (if r_setter r then r\<lparr>r_backing := newVal\<rparr> else r\<lparr>r_val := newVal\<rparr>);
               s1 = set_prop a k (Reactive r1) s
           in case (if r_shallow r then Some (None, s1) else observe newVal False s1) of
                None \<Rightarrow> None
              | Some (childOb, s2) \<Rightarrow> notify R (r_dep r) (set_childOb a k childOb s2))"

text \<open>
  The assignment \<open>obj[key] = v\<close> of the host: an element of an array, a data
  property, an accessor, a reactive member, or a new data property.
\<close>

definition assign ::
  "(nat \<Rightarrow> state \<Rightarrow> state option) \<Rightarrow> nat \<Rightarrow> pkey \<Rightarrow> val \<Rightarrow> state \<Rightarrow> state option" where
  "assign R a k v s =
     (case obj_at s a of
        None \<Rightarrow> Some s
      | Some obj \<Rightarrow>
          (case (isArray obj, k) of
             (True, Index i) \<Rightarrow>
               Some (set_elems a ((elems obj @ replicate (Suc i - length (elems obj)) Undefined)[i := v]) s)
           | _ \<Rightarrow>
               (case map_of (props obj) k of
                  None \<Rightarrow> Some (if extensible obj then set_prop a k (Data True v) s else s)
                | Some (Data c x) \<Rightarrow> Some (set_prop a k (Data c v) s)
                | Some (Accessor c g st b) \<Rightarrow>
                    Some (if st then set_prop a k (Accessor c g st v) s else s)
                | Some (Reactive r) \<Rightarrow> reactiveSetter R a k r v s)))"

text \<open>The \<open>mutator\<close> installed on observed arrays for the seven intercepted methods.\<close>

definition mutator ::
  "(nat \<Rightarrow> state \<Rightarrow> state option) \<Rightarrow> nat \<Rightarrow> array_method \<Rightarrow> state \<Rightarrow> (val \<times> state) option" where
  "mutator R a m s =
     (let (result, s1) = native a m s
      in case ob (heap s1 ! a) of
           None \<Rightarrow> None
         | Some b \<Rightarrow>
             (case (case inserted m of
                      Some xs \<Rightarrow> observeArray (\<lambda>x. observe x False) xs s1
                    | None \<Rightarrow> Some s1) of
                None \<Rightarrow> None
              | Some s2 \<Rightarrow> map_option (Pair result) (notify R (ob_dep b) s2)))"

text \<open>
  A call \<open>arr.method(...)\<close>: an observed array has the mutators in front of
  \<open>Array.prototype\<close>, any other array reaches the host's method directly.
\<close>

definition call_method ::
  "(nat \<Rightarrow> state \<Rightarrow> state option) \<Rightarrow> nat \<Rightarrow> array_method \<Rightarrow> state \<Rightarrow> (val \<times> state) option" where
  "call_method R a m s =
     (case obj_at s a of
        None \<Rightarrow> Some (Undefined, s)
      | Some obj \<Rightarrow>
          if \<not> isArray obj then Some (Undefined, s)
          else if ob obj = None then Some (native a m s)
          else mutator R a m s)"

definition object_prototype_keys :: "pkey list" where
  "object_prototype_keys = map Name [''constructor'', ''hasOwnProperty'', ''isPrototypeOf'',
     ''propertyIsEnumerable'', ''toLocaleString'', ''toString'', ''valueOf'', ''__proto__'',
     ''__defineGetter__'', ''__defineSetter__'', ''__lookupGetter__'', ''__lookupSetter__'']"

text \<open>\<open>key in target\<close>: an own property, an element, or a key found along the prototypes.\<close>

definition key_in :: "pkey \<Rightarrow> obj \<Rightarrow> bool" where
  "key_in k obj \<longleftrightarrow>
     k \<in> fst ` set (props obj) \<or> k \<in> set (proto_keys obj) \<or>
     (isArray obj \<and> (case k of Index i \<Rightarrow> i < length (elems obj) | Name n \<Rightarrow> False))"

text \<open>
  \<open>set(target, key, val)\<close> for a target that is an object; the result is \<open>val\<close> and the
  new state.
\<close>

definition set_fn ::
  "(nat \<Rightarrow> state \<Rightarrow> state option) \<Rightarrow> nat \<Rightarrow> pkey \<Rightarrow> val \<Rightarrow> state \<Rightarrow> (val \<times> state) option" where
  "set_fn R a k v s =
     (case obj_at s a of
        None \<Rightarrow> Some (v, s)
      | Some tgt \<Rightarrow>
          (case (isArray tgt, k) of
             (True, Index i) \<Rightarrow>
               (let s1 = set_elems a (elems tgt @ replicate (i - length (elems tgt)) Undefined) s
                in map_option (\<lambda>(r, s2). (v, s2)) (call_method R a (Splice (int i) (Some 1) [v]) s1))
           | _ \<Rightarrow>
               if key_in k tgt \<and> k \<notin> set object_prototype_keys
               then map_option (Pair v) (assign R a k v s)
               else if isVue tgt \<or> (case ob tgt of Some b \<Rightarrow> vmCount b \<noteq> 0 | None \<Rightarrow> False)
               then Some (v, if \<not> production s
                             then emit (Warn ''Avoid adding reactive properties to a Vue instance or its root $data at runtime - declare it upfront in the data option.'') s
                             else s)
               else (case ob tgt of
                       None \<Rightarrow> map_option (Pair v) (assign R a k v s)
                     | Some b \<Rightarrow>
                         (case defineReactive (\<lambda>x. observe x False) a k (Some v) False s of
                            None \<Rightarrow> None
                          | Some s1 \<Rightarrow> map_option (Pair v) (notify R (ob_dep b) s1)))))"

definition act :: "(nat \<Rightarrow> state \<Rightarrow> state option) \<Rightarrow> action \<Rightarrow> state \<Rightarrow> state option" where
  "act R x s =
     (case x of
        Assign a k v \<Rightarrow> assign R a k v s
      | Mutate a m \<Rightarrow> map_option snd (call_method R a m s)
      | SetKey a k v \<Rightarrow> map_option snd (set_fn R a k v s))"

text \<open>\<open>Watcher.run\<close>, with \<open>R\<close> for the runs nested inside the callback.\<close>

definition run_body :: "(nat \<Rightarrow> state \<Rightarrow> state option) \<Rightarrow> nat \<Rightarrow> state \<Rightarrow> state option" where
  "run_body R w s =
     (if active (watchers s w) then
        let (v, s1) = get w s;
            old = value (watchers s1 w)
        in if \<not> strict_eq v old \<or> isObject v \<or> deep (watchers s1 w) then
             let s2 = upd_watcher w (\<lambda>W. W\<lparr>value := v\<rparr>) s1;
                 s3 = emit (Callback w v old) s2
             in each (act R) (cb (watchers s3 w) v old (heap s3)) s3
           else Some s1
      else Some s)"

primrec run :: "nat \<Rightarrow> nat \<Rightarrow> state \<Rightarrow> state option" where
  "run 0 w s = run_body (\<lambda>_ _. None) w s"
| "run (Suc n) w s = run_body (run n) w s"

section \<open>The flush\<close>

text \<open>
  The loop of \<open>flushSchedulerQueue\<close>. It reads \<open>queue.length\<close> afresh at every
  round, and nothing in it bounds the number of rounds, so it is defined with fuel:
  \<open>None\<close> when the fuel does not suffice.
\<close>

fun flush_loop :: "nat \<Rightarrow> state \<Rightarrow> state option" where
  "flush_loop n s =
     (if index (sch s) < length (queue (sch s)) then
        (case n of
           0 \<Rightarrow> None
         | Suc m \<Rightarrow>
             let w = queue (sch s) ! index (sch s);
                 s1 = (if before (watchers s w) then emit (Before w) s else s);
                 s2 = s1\<lparr>sch := (sch s1)\<lparr>has := has (sch s1) - {w}, ran := ran (sch s1) @ [w]\<rparr>\<rparr>
             in case run m w s2 of
                  None \<Rightarrow> None
                | Some s3 \<Rightarrow> flush_loop m (s3\<lparr>sch := (sch s3)\<lparr>index := index (sch s3) + 1\<rparr>\<rparr>))
      else Some s)"

declare flush_loop.simps [simp del]

text \<open>
  \<open>flushSchedulerQueue\<close>. The hooks called after the reset belong to the component
  layer and are left out.
\<close>

definition flushSchedulerQueue :: "nat \<Rightarrow> state \<Rightarrow> state option" where
  "flushSchedulerQueue n s =
     (let s1 = s\<lparr>sch := (sch s)\<lparr>flushing := True, queue := sort (queue (sch s)), index := 0\<rparr>\<rparr>
      in case flush_loop n s1 of
           None \<Rightarrow> None
         | Some s2 \<Rightarrow> Some (s2\<lparr>sch := resetSchedulerState (production s2) (sch s2)\<rparr>))"

definition flushCallbacks :: "nat \<Rightarrow> state \<Rightarrow> state option" where
  "flushCallbacks n s =
     (let copies = callbacks (sch s);
          s1 = s\<lparr>sch := (sch s)\<lparr>pending := False, callbacks := 0\<rparr>\<rparr>
      in each (\<lambda>_. flushSchedulerQueue n) (replicate copies ()) s1)"

text \<open>
  An inert watcher stands at every id that has not been allocated yet, and \<open>init\<close> is
  the state of the modules right after loading.
\<close>

definition noop_watcher :: watcher where
  "noop_watcher = \<lparr>deep = False, user = False, lazy = False, sync = False, before = False,
     dirty = False, active = False, deps = [], newDeps = [], depIds = {}, newDepIds = {},
     value = Undefined, getter = (\<lambda>_. ([], Undefined)), cb = (\<lambda>_ _ _. [])\<rparr>"

definition init :: state where
  "init = \<lparr>heap = [], dep_uid = 0, subs = (\<lambda>_. []), watcher_uid = 0,
     watchers = (\<lambda>_. noop_watcher), target = None, targetStack = [],
     sch = \<lparr>queue = [], has = {}, circular = (\<lambda>_. None), waiting = False, flushing = False,
            index = 0, callbacks = 0, pending = False, timers = 0, ran = []\<rparr>,
     events = [], production = False, async = True, shouldObserve = True,
     serverRendering = False, traverse = (\<lambda>_ _. [])\<rparr>"

section \<open>Invariants\<close>

text \<open>
  The subscription invariant ties the subscriber lists to the watchers' dependency
  sets: no list holds a watcher twice; a subscribed watcher holds the \<open>Dep\<close> in one of
  its two generations; a watcher that has not been torn down is subscribed to every
  \<open>Dep\<close> of its two generations; the id sets mirror the lists; and only allocated ids
  occur.
\<close>

definition subs_inv :: "state \<Rightarrow> bool" where
  "subs_inv s \<longleftrightarrow>
     (\<forall>d. distinct (subs s d)) \<and>
     (\<forall>w d. w \<in> set (subs s d) \<longrightarrow>
        d \<in> depIds (watchers s w) \<union> newDepIds (watchers s w) \<and> w \<le> watcher_uid s) \<and>
     (\<forall>w d. active (watchers s w) \<longrightarrow> d \<in> depIds (watchers s w) \<union> newDepIds (watchers s w)
        \<longrightarrow> w \<in> set (subs s d)) \<and>
     (\<forall>w. set (deps (watchers s w)) = depIds (watchers s w) \<and>
          set (newDeps (watchers s w)) = newDepIds (watchers s w) \<and>
          depIds (watchers s w) \<union> newDepIds (watchers s w) \<subseteq> {..<dep_uid s})"


text \<open>The loop of \<open>cleanupDeps\<close> on its own.\<close>

definition prune :: "nat \<Rightarrow> nat list \<Rightarrow> state \<Rightarrow> state" where
  "prune w ds s = fold (\<lambda>d s'. if d \<notin> newDepIds (watchers s' w) then removeSub d w s' else s') ds s"


section \<open>Example states\<close>

text \<open>
  A watcher whose getter reads \<open>Dep\<close> 0 three times while the store is empty and
  \<open>Dep\<close> 1 once otherwise, registered after two \<open>Dep\<close>s have been created.
\<close>

definition demo_getter :: "heap \<Rightarrow> nat list \<times> val" where
  "demo_getter h = (if h = [] then ([0, 0, 0], Num 1) else ([1], Num 2))"

definition demo_state :: state where
  "demo_state = snd (new_Watcher demo_getter (\<lambda>_ _ _. []) None (snd (new_Dep (snd (new_Dep init)))))"

definition demo_obj :: obj where
  "demo_obj = \<lparr>isArray = False, isPlain = True, isVNode = False, isVue = False, extensible = True,
     props = [], elems = [], proto_keys = [], ob = None\<rparr>"

text \<open>A lazy watcher whose value is the number of objects in the store.\<close>

definition lazy_opts :: options where
  "lazy_opts = \<lparr>o_deep = False, o_user = False, o_lazy = True, o_sync = False, o_before = False\<rparr>"

definition size_getter :: "heap \<Rightarrow> nat list \<times> val" where
  "size_getter h = ([0], Num (int (length h)))"




text \<open>
  A watcher that invalidates itself: it watches the member \<open>x\<close> of one observed
  object, and its callback writes \<open>x + 1\<close> back into \<open>x\<close>.
\<close>

definition x_getter :: "heap \<Rightarrow> nat list \<times> val" where
  "x_getter h = ([1], prop_value (map_of (props (h ! 0)) (Name ''x'')))"

definition x_bump :: "val \<Rightarrow> val \<Rightarrow> heap \<Rightarrow> action list" where
  "x_bump new old h = [Assign 0 (Name ''x'') (case new of Num n \<Rightarrow> Num (n + 1) | _ \<Rightarrow> Num 0)]"

definition x_object :: obj where
  "x_object = demo_obj\<lparr>props := [(Name ''x'', Data True (Num 0))]\<rparr>"

text \<open>
  The state after the object has been observed, the watcher registered, and \<open>x\<close>
  written once: the watcher is queued and the flush is scheduled.
\<close>

definition circular_state :: state where
  "circular_state =
     the (assign (run 0) 0 (Name ''x'') (Num 1)
       (snd (new_Watcher x_getter x_bump None
         (snd (the (observe (Ref 0) True (init\<lparr>heap := [x_object]\<rparr>)))))))"

text \<open>The state at the head of round \<open>k\<close> of the flush loop.\<close>

definition round_state :: "nat \<Rightarrow> event list \<Rightarrow> nat list \<Rightarrow> state" where
  "round_state k evs rn =
     \<lparr>heap = [demo_obj\<lparr>props := [(Name ''x'', Reactive \<lparr>r_dep = 1, r_val = Num (int k + 1),
                 r_childOb = None, r_shallow = False, r_getter = False, r_setter = False,
                 r_backing = Undefined\<rparr>)],
               ob := Some \<lparr>ob_dep = 0, vmCount = 1\<rparr>\<rparr>],
      dep_uid = 2, subs = (\<lambda>d. if d = 1 then [1] else []), watcher_uid = 1,
      watchers = (\<lambda>_. noop_watcher)(1 := noop_watcher\<lparr>active := True, deps := [1], depIds := {1},
                    value := Num (int k), getter := x_getter, cb := x_bump\<rparr>),
      target = None, targetStack = [],
      sch = \<lparr>queue = replicate (Suc k) 1, has = {1}, circular = (\<lambda>_. None), waiting = True,
             flushing = True, index = k, callbacks = 0, pending = False, timers = 1, ran = rn\<rparr>,
      events = evs, production = False, async = True, shouldObserve = True,
      serverRendering = False, traverse = (\<lambda>_ _. [])\<rparr>"

text \<open>
  A getter that reads the members \<open>kx\<close> and \<open>ky\<close> of the object at \<open>a\<close>, whose
  \<open>Dep\<close>s are \<open>dx\<close> and \<open>dy\<close>, and returns their sum.
\<close>

definition add_vals :: "val \<Rightarrow> val \<Rightarrow> val" where
  "add_vals u v = (case (u, v) of (Num i, Num j) \<Rightarrow> Num (i + j) | _ \<Rightarrow> NaN)"

definition sum_getter :: "nat \<Rightarrow> pkey \<Rightarrow> pkey \<Rightarrow> nat \<Rightarrow> nat \<Rightarrow> heap \<Rightarrow> nat list \<times> val" where
  "sum_getter a kx ky dx dy h =
     ([dx, dy], add_vals (prop_value (map_of (props (h ! a)) kx)) (prop_value (map_of (props (h ! a)) ky)))"

text \<open>Two writes in one tick, then the batcher's flush.\<close>

definition two_writes_then_flush ::
  "(nat \<Rightarrow> state \<Rightarrow> state option) \<Rightarrow> nat \<Rightarrow> nat \<Rightarrow> pkey \<Rightarrow> val \<Rightarrow> pkey \<Rightarrow> val \<Rightarrow> state
     \<Rightarrow> state option" where
  "two_writes_then_flush R n a kx vx ky vy s =
     (case assign R a kx vx s of
        None \<Rightarrow> None
      | Some s1 \<Rightarrow> (case assign R a ky vy s1 of None \<Rightarrow> None | Some s2 \<Rightarrow> flushCallbacks n s2))"

text \<open>The object \<open>{x: 1, y: 1}\<close>, observed as root state, and a watcher on \<open>x + y\<close>.\<close>

definition xy_object :: obj where
  "xy_object = demo_obj\<lparr>props := [(Name ''x'', Data True (Num 1)), (Name ''y'', Data True (Num 1))]\<rparr>"

definition batch_state :: state where
  "batch_state =
     snd (new_Watcher (sum_getter 0 (Name ''x'') (Name ''y'') 1 2) (\<lambda>_ _ _. []) None
       (snd (the (observe (Ref 0) True (init\<lparr>heap := [xy_object]\<rparr>)))))"

text \<open>
  What wrapping a value may change: the heap, the \<open>Dep\<close> counter and the subscriber
  lists of the \<open>Dep\<close>s it creates.
\<close>

definition wraps :: "state \<Rightarrow> state \<Rightarrow> bool" where
  "wraps s s' \<longleftrightarrow>
     sch s' = sch s \<and> events s' = events s \<and> watchers s' = watchers s \<and> target s' = target s \<and>
     targetStack s' = targetStack s \<and> watcher_uid s' = watcher_uid s \<and>
     production s' = production s \<and> async s' = async s \<and> traverse s' = traverse s \<and>
     shouldObserve s' = shouldObserve s \<and> serverRendering s' = serverRendering s"

definition wrapper :: "(val \<Rightarrow> state \<Rightarrow> (nat option \<times> state) option) \<Rightarrow> bool" where
  "wrapper obs \<longleftrightarrow> (\<forall>v s r s'. obs v s = Some (r, s') \<longrightarrow> wraps s s')"

text \<open>
  What a watcher's \<open>run()\<close> may do to the scheduler: the module state of
  \<open>scheduler.js\<close> is private, and \<open>queueWatcher\<close> is the only way in.
\<close>

definition queues :: "sched \<Rightarrow> sched \<Rightarrow> bool" where
  "queues q q' \<longleftrightarrow> (\<exists>ws. q' = fold queueWatcher ws q)"

definition only_queues :: "(nat \<Rightarrow> state \<Rightarrow> state option) \<Rightarrow> bool" where
  "only_queues R \<longleftrightarrow> (\<forall>w s s'. R w s = Some s' \<longrightarrow> queues (sch s) (sch s'))"




text \<open>
  The points of a flush cycle, as \<open>scheduler.js\<close> runs it: outside a flush watchers
  are queued, and the batcher clears its list before it calls the flush; the flush
  sorts; each round takes the entry at \<open>index\<close> out of \<open>has\<close> and runs it, and while it
  runs there can be calls of \<open>queueWatcher\<close>; then \<open>index\<close> moves on; once the queue
  is exhausted the state is reset.
\<close>

datatype phase = Idle | Head | Body

inductive reach :: "phase \<Rightarrow> sched \<Rightarrow> bool" where
  loaded: "reach Idle (sch init)"
| queued: "reach Idle q \<Longrightarrow> reach Idle (queueWatcher w q)"
| tick: "reach Idle q \<Longrightarrow> reach Idle (q\<lparr>pending := False, callbacks := 0\<rparr>)"
| flush: "reach Idle q \<Longrightarrow> reach Head (q\<lparr>flushing := True, queue := sort (queue q), index := 0\<rparr>)"
| dequeue: "reach Head q \<Longrightarrow> index q < length (queue q) \<Longrightarrow>
     reach Body (q\<lparr>has := has q - {queue q ! index q}, ran := ran q @ [queue q ! index q]\<rparr>)"
| requeued: "reach Body q \<Longrightarrow> reach Body (queueWatcher w q)"
| advance: "reach Body q \<Longrightarrow> reach Head (q\<lparr>index := index q + 1\<rparr>)"
| reset: "reach Head q \<Longrightarrow> \<not> index q < length (queue q) \<Longrightarrow> reach Idle (resetSchedulerState p q)"






text \<open>
  The objects that \<open>observe\<close> gives a new \<open>Observer\<close> when observation is switched on:
  unmarked, not a VNode, an array or a plain object, extensible, not a Vue instance.
\<close>

definition observable :: "obj \<Rightarrow> bool" where
  "observable obj \<longleftrightarrow>
     ob obj = None \<and> \<not> isVNode obj \<and> (isArray obj \<or> isPlain obj) \<and> extensible obj \<and> \<not> isVue obj"

definition todo :: "state \<Rightarrow> nat set" where
  "todo s = {a. a < length (heap s) \<and> observable (heap s ! a)}"

text \<open>What wrapping never does to an object: change its kind or its elements, or take its observer away.\<close>

definition same_shape :: "obj \<Rightarrow> obj \<Rightarrow> bool" where
  "same_shape x y \<longleftrightarrow>
     isArray y = isArray x \<and> isPlain y = isPlain x \<and> isVNode y = isVNode x \<and> isVue y = isVue x \<and>
     extensible y = extensible x \<and> elems y = elems x \<and> proto_keys y = proto_keys x \<and>
     (ob x \<noteq> None \<longrightarrow> ob y \<noteq> None)"

definition evolves :: "state \<Rightarrow> state \<Rightarrow> bool" where
  "evolves s s' \<longleftrightarrow>
     length (heap s') = length (heap s) \<and> dep_uid s \<le> dep_uid s' \<and>
     (\<forall>d<dep_uid s. subs s' d = subs s d) \<and>
     (\<forall>a<length (heap s). same_shape (heap s ! a) (heap s' ! a))"

text \<open>Objects that are not waiting for an observer are left as they are.\<close>

definition spares :: "state \<Rightarrow> state \<Rightarrow> bool" where
  "spares s s' \<longleftrightarrow>
     length (heap s') = length (heap s) \<and>
     (\<forall>a<length (heap s). \<not> observable (heap s ! a) \<longrightarrow> heap s' ! a = heap s ! a)"

text \<open>The observer that \<open>observe\<close> returns for a value: the address of the object that carries it.\<close>

definition wrapped :: "state \<Rightarrow> val \<Rightarrow> nat option" where
  "wrapped s v =
     (case v of
        Ref a \<Rightarrow>
          (case obj_at s a of
             None \<Rightarrow> None
           | Some obj \<Rightarrow>
               if \<not> isVNode obj \<and> (ob obj \<noteq> None \<or> shouldObserve s \<and> \<not> serverRendering s \<and> observable obj)
               then Some a else None)
      | _ \<Rightarrow> None)"








section \<open>Dependency collection: lemmas\<close>

lemma addDep_inv: "subs_inv s \<Longrightarrow> d < dep_uid s \<Longrightarrow> w \<le> watcher_uid s \<Longrightarrow> subs_inv (addDep w d s)"
  unfolding subs_inv_def addDep_def addSub_def upd_watcher_def Let_def
  by (auto simp: )

lemma addDep_frame [simp]:
  "dep_uid (addDep w d s) = dep_uid s" "watcher_uid (addDep w d s) = watcher_uid s"
  "target (addDep w d s) = target s" "targetStack (addDep w d s) = targetStack s"
  "heap (addDep w d s) = heap s" "sch (addDep w d s) = sch s" "events (addDep w d s) = events s"
  by (simp_all add: addDep_def addSub_def upd_watcher_def Let_def)

lemma addDep_other [simp]: "w' \<noteq> w \<Longrightarrow> watchers (addDep w d s) w' = watchers s w'"
  by (simp add: addDep_def addSub_def upd_watcher_def Let_def)

lemma addDep_newDepIds [simp]:
  "newDepIds (watchers (addDep w d s) w) = insert d (newDepIds (watchers s w))"
  "depIds (watchers (addDep w d s) w) = depIds (watchers s w)"
  "active (watchers (addDep w d s) w) = active (watchers s w)"
  by (auto simp add: addDep_def addSub_def upd_watcher_def Let_def)

lemma fold_addDep_inv:
  "subs_inv s \<Longrightarrow> set ds \<subseteq> {..<dep_uid s} \<Longrightarrow> w \<le> watcher_uid s \<Longrightarrow> subs_inv (fold (addDep w) ds s)"
  by (induction ds arbitrary: s) (auto simp: addDep_inv)

lemma fold_addDep_frame [simp]:
  "dep_uid (fold (addDep w) ds s) = dep_uid s" "watcher_uid (fold (addDep w) ds s) = watcher_uid s"
  "target (fold (addDep w) ds s) = target s" "targetStack (fold (addDep w) ds s) = targetStack s"
  "heap (fold (addDep w) ds s) = heap s" "sch (fold (addDep w) ds s) = sch s"
  "events (fold (addDep w) ds s) = events s"
  by (induction ds arbitrary: s; simp)+

lemma fold_addDep_newDepIds [simp]:
  "newDepIds (watchers (fold (addDep w) ds s) w) = set ds \<union> newDepIds (watchers s w)"
  "depIds (watchers (fold (addDep w) ds s) w) = depIds (watchers s w)"
  "active (watchers (fold (addDep w) ds s) w) = active (watchers s w)"
  by (induction ds arbitrary: s; auto)+

lemma fold_addDep_other [simp]: "w' \<noteq> w \<Longrightarrow> watchers (fold (addDep w) ds s) w' = watchers s w'"
  by (induction ds arbitrary: s) auto

lemma count_list_distinct: "distinct xs \<Longrightarrow> x \<in> set xs \<Longrightarrow> count_list xs x = 1"
  by (induction xs) auto

lemma fold_depend: "target s = Some w \<Longrightarrow> fold depend ds s = fold (addDep w) ds s"
  by (induction ds arbitrary: s) (auto simp: depend_def)

lemma fold_depend_None: "target s = None \<Longrightarrow> fold depend ds s = s"
  by (induction ds arbitrary: s) (auto simp: depend_def)

lemma prune_watchers [simp]: "watchers (prune w ds s) = watchers s"
  unfolding prune_def by (induction ds arbitrary: s) (auto simp: removeSub_def)

lemma prune_subs:
  "subs (prune w ds s) d =
     (if d \<notin> newDepIds (watchers s w) then (remove1 w ^^ count_list ds d) (subs s d) else subs s d)"
  unfolding prune_def
  by (induction ds arbitrary: s) (auto simp: removeSub_def remove_def funpow_swap1)

lemma prune_frame [simp]:
  "dep_uid (prune w ds s) = dep_uid s" "watcher_uid (prune w ds s) = watcher_uid s"
  "target (prune w ds s) = target s" "targetStack (prune w ds s) = targetStack s"
  "heap (prune w ds s) = heap s" "sch (prune w ds s) = sch s" "events (prune w ds s) = events s"
  unfolding prune_def by (induction ds arbitrary: s; simp add: removeSub_def)+

lemma funpow_remove1_set: "set ((remove1 w ^^ k) xs) - {w} = set xs - {w}"
  by (induction k arbitrary: xs) (auto simp: funpow_swap1 dest: in_set_remove1 notin_set_remove1)

lemma funpow_remove1_distinct: "distinct xs \<Longrightarrow> distinct ((remove1 w ^^ k) xs)"
  by (induction k arbitrary: xs) (auto simp: funpow_swap1)

lemma funpow_remove1_gone: "distinct xs \<Longrightarrow> 0 < k \<Longrightarrow> w \<notin> set ((remove1 w ^^ k) xs)"
proof (induction k arbitrary: xs)
  case 0 then show ?case by simp
next
  case (Suc k)
  show ?case
  proof (cases k)
    case 0 with Suc.prems show ?thesis by simp
  next
    case (Suc j)
    with Suc.IH[of "remove1 w xs"] Suc.prems show ?thesis by (simp add: funpow_swap1)
  qed
qed

lemma funpow_remove1_other: "w' \<noteq> w \<Longrightarrow> w' \<in> set ((remove1 w ^^ k) xs) \<longleftrightarrow> w' \<in> set xs"
  using funpow_remove1_set[where w=w and k=k and xs=xs] by auto

lemma funpow_remove1_sub: "x \<in> set ((remove1 w ^^ k) xs) \<Longrightarrow> x \<in> set xs"
proof (induction k arbitrary: xs)
  case 0 then show ?case by simp
next
  case (Suc k)
  then have "x \<in> set (remove1 w xs)" by (simp add: funpow_swap1)
  then show ?case using set_remove1_subset[of w xs] by blast
qed

lemma cleanupDeps_prune:
  "cleanupDeps w s = upd_watcher w (\<lambda>W. W\<lparr>depIds := newDepIds W, newDepIds := {},
                                 deps := newDeps W, newDeps := []\<rparr>) (prune w (rev (deps (watchers s w))) s)"
  by (simp add: cleanupDeps_def prune_def)

lemma cleanupDeps_subs:
  "subs (cleanupDeps w s) d =
     (if d \<notin> newDepIds (watchers s w) then (remove1 w ^^ count_list (deps (watchers s w)) d) (subs s d)
      else subs s d)"
  by (simp add: cleanupDeps_prune upd_watcher_def prune_subs)

lemma cleanupDeps_watchers:
  "watchers (cleanupDeps w s) = (watchers s)(w := (watchers s w)\<lparr>depIds := newDepIds (watchers s w), newDepIds := {},
                                 deps := newDeps (watchers s w), newDeps := []\<rparr>)"
  by (simp add: cleanupDeps_prune upd_watcher_def)

lemma cleanupDeps_frame [simp]:
  "dep_uid (cleanupDeps w s) = dep_uid s" "watcher_uid (cleanupDeps w s) = watcher_uid s"
  "target (cleanupDeps w s) = target s" "targetStack (cleanupDeps w s) = targetStack s"
  "heap (cleanupDeps w s) = heap s" "sch (cleanupDeps w s) = sch s" "events (cleanupDeps w s) = events s"
  by (simp_all add: cleanupDeps_prune upd_watcher_def)

lemma cleanupDeps_inv:
  assumes "subs_inv s" shows "subs_inv (cleanupDeps w s)"
proof -
  let ?W = "watchers s w"
  have gone: "w \<notin> set (subs (cleanupDeps w s) d)" if "d \<notin> newDepIds ?W" for d
  proof (cases "d \<in> depIds ?W")
    case True
    with assms have "0 < count_list (deps ?W) d"
      by (metis count_list_0_iff not_gr_zero subs_inv_def)
    moreover from assms have "distinct (subs s d)" by (simp add: subs_inv_def)
    ultimately show ?thesis using that by (simp add: cleanupDeps_subs funpow_remove1_gone)
  next
    case False
    with that assms have "w \<notin> set (subs s d)" by (auto simp: subs_inv_def)
    then show ?thesis by (auto simp: cleanupDeps_subs dest: funpow_remove1_sub)
  qed
  have other: "w' \<in> set (subs (cleanupDeps w s) d) \<longleftrightarrow> w' \<in> set (subs s d)" if "w' \<noteq> w" for w' d
    using that by (simp add: cleanupDeps_subs funpow_remove1_other)
  have keep: "subs (cleanupDeps w s) d = subs s d" if "d \<in> newDepIds ?W" for d
    using that by (simp add: cleanupDeps_subs)
  show ?thesis
    unfolding subs_inv_def
  proof (intro conjI allI impI)
    fix d show "distinct (subs (cleanupDeps w s) d)"
      using assms by (simp add: cleanupDeps_subs subs_inv_def funpow_remove1_distinct)
  next
    fix w' d assume a: "w' \<in> set (subs (cleanupDeps w s) d)"
    then have m: "w' \<in> set (subs s d)" by (auto simp: cleanupDeps_subs dest: funpow_remove1_sub split: if_splits)
    show "d \<in> depIds (watchers (cleanupDeps w s) w') \<union> newDepIds (watchers (cleanupDeps w s) w')"
    proof (cases "w' = w")
      case True
      with a gone[of d] show ?thesis by (auto simp: cleanupDeps_watchers)
    next
      case False
      with m assms show ?thesis by (auto simp: cleanupDeps_watchers subs_inv_def)
    qed
    from m assms show "w' \<le> watcher_uid (cleanupDeps w s)" by (auto simp: subs_inv_def)
  next
    fix w' d
    assume a: "active (watchers (cleanupDeps w s) w')"
      and b: "d \<in> depIds (watchers (cleanupDeps w s) w') \<union> newDepIds (watchers (cleanupDeps w s) w')"
    show "w' \<in> set (subs (cleanupDeps w s) d)"
    proof (cases "w' = w")
      case True
      with a b have "d \<in> newDepIds ?W" "active ?W" by (auto simp: cleanupDeps_watchers)
      with assms keep[of d] True show ?thesis by (auto simp: subs_inv_def)
    next
      case False
      with a b assms have "w' \<in> set (subs s d)" by (auto simp: cleanupDeps_watchers subs_inv_def)
      with other[OF False] show ?thesis by simp
    qed
  next
    fix w' show "set (deps (watchers (cleanupDeps w s) w')) = depIds (watchers (cleanupDeps w s) w')"
      using assms by (auto simp: cleanupDeps_watchers subs_inv_def)
  next
    fix w' show "set (newDeps (watchers (cleanupDeps w s) w')) = newDepIds (watchers (cleanupDeps w s) w')"
      using assms by (auto simp: cleanupDeps_watchers subs_inv_def)
  next
    fix w' show "depIds (watchers (cleanupDeps w s) w') \<union> newDepIds (watchers (cleanupDeps w s) w') \<subseteq> {..<dep_uid (cleanupDeps w s)}"
      using assms by (auto simp: cleanupDeps_watchers subs_inv_def)
  qed
qed


lemma subs_inv_cong:
  "subs s' = subs s \<Longrightarrow> watchers s' = watchers s \<Longrightarrow> dep_uid s' = dep_uid s \<Longrightarrow>
   watcher_uid s' = watcher_uid s \<Longrightarrow> subs_inv s' = subs_inv s"
  by (simp add: subs_inv_def)

lemma subs_inv_pushTarget [simp]: "subs_inv (pushTarget t s) = subs_inv s"
  by (rule subs_inv_cong) (simp_all add: pushTarget_def)

lemma subs_inv_popTarget [simp]: "subs_inv (popTarget s) = subs_inv s"
  by (rule subs_inv_cong) (simp_all add: popTarget_def Let_def)

lemma subs_inv_emit [simp]: "subs_inv (emit e s) = subs_inv s"
  by (rule subs_inv_cong) (simp_all add: emit_def)

lemma reads_cong:
  "watchers s' w = watchers s w \<Longrightarrow> heap s' = heap s \<Longrightarrow> traverse s' = traverse s \<Longrightarrow> reads w s' = reads w s"
  by (simp add: reads_def Let_def)

lemma get_eq:
  "get w s = (snd (getter (watchers s w) (heap s)),
              cleanupDeps w (popTarget (fold (addDep w) (reads w s) (emit (Eval w) (pushTarget (Some w) s)))))"
proof -
  have r: "reads w (pushTarget (Some w) s) = reads w s"
    by (rule reads_cong) (simp_all add: pushTarget_def)
  have t: "target (emit (Eval w) (pushTarget (Some w) s)) = Some w"
    by (simp add: emit_def pushTarget_def)
  have g: "getter (watchers (pushTarget (Some w) s) w) (heap (pushTarget (Some w) s))
           = getter (watchers s w) (heap s)"
    by (simp add: pushTarget_def)
  show ?thesis
    by (simp add: get_def Let_def r fold_depend[OF t] g)
qed

lemma get_inv:
  assumes "subs_inv s" "set (reads w s) \<subseteq> {..<dep_uid s}" "w \<le> watcher_uid s"
  shows "subs_inv (snd (get w s))"
proof -
  let ?s1 = "emit (Eval w) (pushTarget (Some w) s)"
  have "subs_inv ?s1" using assms by simp
  moreover have "dep_uid ?s1 = dep_uid s" "watcher_uid ?s1 = watcher_uid s"
    by (simp_all add: emit_def pushTarget_def)
  ultimately have "subs_inv (fold (addDep w) (reads w s) ?s1)"
    using assms by (intro fold_addDep_inv) simp_all
  then show ?thesis by (simp add: get_eq cleanupDeps_inv)
qed

lemma get_depIds:
  "depIds (watchers (snd (get w s)) w) = set (reads w s) \<union> newDepIds (watchers s w)"
  by (simp add: get_eq cleanupDeps_watchers popTarget_def Let_def emit_def pushTarget_def)




lemma subs_invD1: "subs_inv s \<Longrightarrow> distinct (subs s d)"
  by (simp add: subs_inv_def)

lemma subs_invD2: "subs_inv s \<Longrightarrow> w \<in> set (subs s d) \<Longrightarrow> d \<in> depIds (watchers s w) \<union> newDepIds (watchers s w)"
  unfolding subs_inv_def by blast

lemma subs_invD3: "subs_inv s \<Longrightarrow> active (watchers s w) \<Longrightarrow> d \<in> depIds (watchers s w) \<union> newDepIds (watchers s w) \<Longrightarrow> w \<in> set (subs s d)"
  unfolding subs_inv_def by blast

lemma get_active:
  "active (watchers (snd (get w s)) w') = active (watchers s w')"
proof (cases "w' = w")
  case True
  then show ?thesis by (simp add: get_eq cleanupDeps_watchers popTarget_def Let_def emit_def pushTarget_def)
next
  case False
  then show ?thesis by (simp add: get_eq cleanupDeps_watchers popTarget_def Let_def emit_def pushTarget_def)
qed

lemma get_subscribed_once:
  assumes "subs_inv s" "set (reads w s) \<subseteq> {..<dep_uid s}" "w \<le> watcher_uid s"
    and "active (watchers s w)" and "d \<in> set (reads w s)"
  shows "count_list (subs (snd (get w s)) d) w = 1"
proof -
  let ?s' = "snd (get w s)"
  have inv: "subs_inv ?s'" using assms(1-3) by (rule get_inv)
  have "d \<in> depIds (watchers ?s' w)" using assms(5) by (simp add: get_depIds)
  moreover have "active (watchers ?s' w)" using assms(4) by (simp add: get_active)
  ultimately have "w \<in> set (subs ?s' d)" using subs_invD3[OF inv] by simp
  moreover have "distinct (subs ?s' d)" using inv by (rule subs_invD1)
  ultimately show ?thesis by (simp add: count_list_distinct)
qed

lemma get_subs_iff:
  assumes "subs_inv s" "set (reads w s) \<subseteq> {..<dep_uid s}" "w \<le> watcher_uid s"
    and "active (watchers s w)" and "newDepIds (watchers s w) = {}"
  shows "w \<in> set (subs (snd (get w s)) d) \<longleftrightarrow> d \<in> set (reads w s)"
proof -
  let ?s' = "snd (get w s)"
  have inv: "subs_inv ?s'" using assms(1-3) by (rule get_inv)
  have n: "newDepIds (watchers ?s' w) = {}"
    by (simp add: get_eq cleanupDeps_watchers)
  have d: "depIds (watchers ?s' w) = set (reads w s)" using assms(5) by (simp add: get_depIds)
  have a: "active (watchers ?s' w)" using assms(4) by (simp add: get_active)
  show ?thesis using subs_invD2[OF inv, of w d] subs_invD3[OF inv a, of d] n d by auto
qed

lemma subs_invD_le: "subs_inv s \<Longrightarrow> w \<in> set (subs s d) \<Longrightarrow> w \<le> watcher_uid s"
  unfolding subs_inv_def by blast

lemma subs_invD_lt: "subs_inv s \<Longrightarrow> d \<in> depIds (watchers s w) \<union> newDepIds (watchers s w) \<Longrightarrow> d < dep_uid s"
  unfolding subs_inv_def by blast

lemma subs_invD_deps: "subs_inv s \<Longrightarrow> set (deps (watchers s w)) = depIds (watchers s w)"
  unfolding subs_inv_def by blast

lemma subs_invD_newDeps: "subs_inv s \<Longrightarrow> set (newDeps (watchers s w)) = newDepIds (watchers s w)"
  unfolding subs_inv_def by blast

lemma subs_invI:
  assumes "\<And>d. distinct (subs s d)"
    and "\<And>w d. w \<in> set (subs s d) \<Longrightarrow> d \<in> depIds (watchers s w) \<union> newDepIds (watchers s w)"
    and "\<And>w d. w \<in> set (subs s d) \<Longrightarrow> w \<le> watcher_uid s"
    and "\<And>w d. active (watchers s w) \<Longrightarrow> d \<in> depIds (watchers s w) \<union> newDepIds (watchers s w) \<Longrightarrow> w \<in> set (subs s d)"
    and "\<And>w. set (deps (watchers s w)) = depIds (watchers s w)"
    and "\<And>w. set (newDeps (watchers s w)) = newDepIds (watchers s w)"
    and "\<And>w d. d \<in> depIds (watchers s w) \<union> newDepIds (watchers s w) \<Longrightarrow> d < dep_uid s"
  shows "subs_inv s"
  unfolding subs_inv_def using assms by (intro conjI allI impI subsetI) (simp_all only: lessThan_iff)

lemma subs_inv_view:
  assumes "subs s' = subs s" "dep_uid s' = dep_uid s" "watcher_uid s' = watcher_uid s"
    and "\<And>w. depIds (watchers s' w) = depIds (watchers s w)"
    and "\<And>w. newDepIds (watchers s' w) = newDepIds (watchers s w)"
    and "\<And>w. deps (watchers s' w) = deps (watchers s w)"
    and "\<And>w. newDeps (watchers s' w) = newDeps (watchers s w)"
    and "\<And>w. active (watchers s' w) = active (watchers s w)"
  shows "subs_inv s' = subs_inv s"
  unfolding subs_inv_def by (simp only: assms)

lemma init_inv: "subs_inv init"
  by (simp add: subs_inv_def init_def noop_watcher_def)

lemma new_Dep_inv:
  assumes "subs_inv s" shows "subs_inv (snd (new_Dep s))"
proof (rule subs_invI)
  fix w d
  assume "active (watchers (snd (new_Dep s)) w)"
    "d \<in> depIds (watchers (snd (new_Dep s)) w) \<union> newDepIds (watchers (snd (new_Dep s)) w)"
  then show "w \<in> set (subs (snd (new_Dep s)) d)"
    using subs_invD3[OF assms, of w d] subs_invD_lt[OF assms, of d w] by (auto simp: new_Dep_def)
next
  fix w d
  assume "d \<in> depIds (watchers (snd (new_Dep s)) w) \<union> newDepIds (watchers (snd (new_Dep s)) w)"
  then show "d < dep_uid (snd (new_Dep s))"
    using subs_invD_lt[OF assms, of d w] by (auto simp: new_Dep_def)
next
  fix w d assume "w \<in> set (subs (snd (new_Dep s)) d)"
  then have "w \<in> set (subs s d)" by (auto simp: new_Dep_def split: if_splits)
  then show "d \<in> depIds (watchers (snd (new_Dep s)) w) \<union> newDepIds (watchers (snd (new_Dep s)) w)"
     "w \<le> watcher_uid (snd (new_Dep s))"
    using subs_invD2[OF assms, of w d] subs_invD_le[OF assms, of w d] by (auto simp: new_Dep_def)
qed (use subs_invD1[OF assms] subs_invD_deps[OF assms] subs_invD_newDeps[OF assms] in \<open>simp_all add: new_Dep_def\<close>)

lemma upd_value_inv [simp]: "subs_inv (upd_watcher w (\<lambda>W. W\<lparr>value := v\<rparr>) s) = subs_inv s"
  by (rule subs_inv_view) (simp_all add: upd_watcher_def)

lemma upd_value_dirty_inv [simp]: "subs_inv (upd_watcher w (\<lambda>W. W\<lparr>value := v, dirty := b\<rparr>) s) = subs_inv s"
  by (rule subs_inv_view) (simp_all add: upd_watcher_def)

lemma upd_dirty_inv [simp]: "subs_inv (upd_watcher w (\<lambda>W. W\<lparr>dirty := b\<rparr>) s) = subs_inv s"
  by (rule subs_inv_view) (simp_all add: upd_watcher_def)

lemma fresh_watcher_inv:
  assumes "subs_inv s" and "depIds W = {}" "newDepIds W = {}" "deps W = []" "newDeps W = []"
  shows "subs_inv (s\<lparr>watcher_uid := watcher_uid s + 1, watchers := (watchers s)(watcher_uid s + 1 := W)\<rparr>)"
    (is "subs_inv ?s'")
proof (rule subs_invI)
  have fresh: "watcher_uid s + 1 \<notin> set (subs s d)" for d
    using subs_invD_le[OF assms(1), of "watcher_uid s + 1" d] by auto
  fix w d
  { assume "w \<in> set (subs ?s' d)"
    then have m: "w \<in> set (subs s d)" by simp
    with fresh have "w \<noteq> watcher_uid s + 1" by auto
    with m show "d \<in> depIds (watchers ?s' w) \<union> newDepIds (watchers ?s' w)"
      using subs_invD2[OF assms(1), of w d] by simp
    from m show "w \<le> watcher_uid ?s'" using subs_invD_le[OF assms(1), of w d] by simp }
  { assume "active (watchers ?s' w)" "d \<in> depIds (watchers ?s' w) \<union> newDepIds (watchers ?s' w)"
    then show "w \<in> set (subs ?s' d)"
      using assms(2,3) subs_invD3[OF assms(1), of w d] by (auto split: if_splits) }
  { assume "d \<in> depIds (watchers ?s' w) \<union> newDepIds (watchers ?s' w)"
    then show "d < dep_uid ?s'"
      using assms(2,3) subs_invD_lt[OF assms(1), of d w] by (auto split: if_splits) }
qed (use assms subs_invD1[OF assms(1)] subs_invD_deps[OF assms(1)] subs_invD_newDeps[OF assms(1)] in simp_all)

lemma evaluate_inv:
  "subs_inv s \<Longrightarrow> set (reads w s) \<subseteq> {..<dep_uid s} \<Longrightarrow> w \<le> watcher_uid s \<Longrightarrow> subs_inv (evaluate w s)"
  using get_inv[of s w] by (cases "get w s") (simp add: evaluate_def)

lemma new_Watcher_inv:
  assumes "subs_inv s" "set (fst (g (heap s))) \<subseteq> {..<dep_uid s}"
    "set (traverse s (heap s) (snd (g (heap s)))) \<subseteq> {..<dep_uid s}"
  shows "subs_inv (snd (new_Watcher g c opts s))"
proof -
  define W where "W = \<lparr>deep = (case opts of Some o' \<Rightarrow> o_deep o' | None \<Rightarrow> False),
      user = (case opts of Some o' \<Rightarrow> o_user o' | None \<Rightarrow> False),
      lazy = (case opts of Some o' \<Rightarrow> o_lazy o' | None \<Rightarrow> False),
      sync = (case opts of Some o' \<Rightarrow> o_sync o' | None \<Rightarrow> False),
      before = (case opts of Some o' \<Rightarrow> o_before o' | None \<Rightarrow> False),
      dirty = (case opts of Some o' \<Rightarrow> o_lazy o' | None \<Rightarrow> False), active = True,
      deps = [], newDeps = [], depIds = {}, newDepIds = {},
      value = Undefined, getter = g, cb = c\<rparr>"
  define s1 where "s1 = s\<lparr>watcher_uid := watcher_uid s + 1, watchers := (watchers s)(watcher_uid s + 1 := W)\<rparr>"
  have i1: "subs_inv s1" unfolding s1_def by (rule fresh_watcher_inv[OF assms(1)]) (simp_all add: W_def)
  have r: "set (reads (watcher_uid s + 1) s1) \<subseteq> {..<dep_uid s1}"
    using assms(2,3) by (auto simp: reads_def s1_def W_def Let_def)
  have i2: "subs_inv (snd (get (watcher_uid s + 1) s1))"
    by (rule get_inv[OF i1 r]) (simp add: s1_def)
  have "snd (new_Watcher g c opts s) =
     (if lazy W then s1 else upd_watcher (watcher_uid s + 1) (\<lambda>W. W\<lparr>value := fst (get (watcher_uid s + 1) s1)\<rparr>) (snd (get (watcher_uid s + 1) s1)))"
    by (simp add: new_Watcher_def Let_def W_def s1_def split: prod.splits)
  then show ?thesis using i1 i2 by simp
qed

lemma removeSub_fold_subs:
  "subs (fold (\<lambda>d. removeSub d w) ds s) d = (remove1 w ^^ count_list ds d) (subs s d)"
  by (induction ds arbitrary: s) (auto simp: removeSub_def remove_def funpow_swap1)

lemma removeSub_fold_frame [simp]:
  "watchers (fold (\<lambda>d. removeSub d w) ds s) = watchers s"
  "dep_uid (fold (\<lambda>d. removeSub d w) ds s) = dep_uid s"
  "watcher_uid (fold (\<lambda>d. removeSub d w) ds s) = watcher_uid s"
  by (induction ds arbitrary: s; simp add: removeSub_def)+

lemma teardown_inv:
  assumes "subs_inv s" shows "subs_inv (teardown w s)"
proof (cases "active (watchers s w)")
  case False then show ?thesis using assms by (simp add: teardown_def)
next
  case True
  let ?s' = "teardown w s"
  have sb: "subs ?s' d = (remove1 w ^^ count_list (deps (watchers s w)) d) (subs s d)" for d
    using True by (simp add: teardown_def upd_watcher_def removeSub_fold_subs)
  have wt: "watchers ?s' = (watchers s)(w := (watchers s w)\<lparr>active := False\<rparr>)"
    using True by (simp add: teardown_def upd_watcher_def)
  have u: "dep_uid ?s' = dep_uid s" "watcher_uid ?s' = watcher_uid s"
    using True by (simp_all add: teardown_def upd_watcher_def)
  show ?thesis
  proof (rule subs_invI)
    fix d show "distinct (subs ?s' d)" using subs_invD1[OF assms] by (simp add: sb funpow_remove1_distinct)
  next
    fix w' d assume "w' \<in> set (subs ?s' d)"
    then have m: "w' \<in> set (subs s d)" unfolding sb by (rule funpow_remove1_sub)
    then show "d \<in> depIds (watchers ?s' w') \<union> newDepIds (watchers ?s' w')" "w' \<le> watcher_uid ?s'"
      using subs_invD2[OF assms, of w' d] subs_invD_le[OF assms, of w' d] by (auto simp: wt u)
  next
    fix w' d
    assume "active (watchers ?s' w')" "d \<in> depIds (watchers ?s' w') \<union> newDepIds (watchers ?s' w')"
    then have "w' \<noteq> w" "w' \<in> set (subs s d)"
      using subs_invD3[OF assms, of w' d] by (auto simp: wt split: if_splits)
    then show "w' \<in> set (subs ?s' d)" by (simp add: sb funpow_remove1_other)
  next
    fix w' d assume "d \<in> depIds (watchers ?s' w') \<union> newDepIds (watchers ?s' w')"
    then show "d < dep_uid ?s'" using subs_invD_lt[OF assms, of d w'] by (auto simp: wt u split: if_splits)
  qed (use subs_invD_deps[OF assms] subs_invD_newDeps[OF assms] in \<open>simp_all add: wt\<close>)
qed

lemma depend_inv:
  "subs_inv s \<Longrightarrow> d < dep_uid s \<Longrightarrow> (\<forall>t. target s = Some t \<longrightarrow> t \<le> watcher_uid s) \<Longrightarrow> subs_inv (depend d s)"
  by (auto simp: depend_def addDep_inv split: option.splits)

lemma depend_frame [simp]:
  "dep_uid (depend d s) = dep_uid s" "watcher_uid (depend d s) = watcher_uid s" "target (depend d s) = target s"
  by (simp_all add: depend_def split: option.splits)

lemma fold_depend_inv:
  "subs_inv s \<Longrightarrow> set ds \<subseteq> {..<dep_uid s} \<Longrightarrow> (\<forall>t. target s = Some t \<longrightarrow> t \<le> watcher_uid s) \<Longrightarrow> subs_inv (fold depend ds s)"
  by (induction ds arbitrary: s) (auto simp: depend_inv)

lemma watcher_depend_inv:
  assumes "subs_inv s" "\<forall>t. target s = Some t \<longrightarrow> t \<le> watcher_uid s"
  shows "subs_inv (watcher_depend w s)"
  unfolding watcher_depend_def
  using assms subs_invD_lt[OF assms(1), of _ w] subs_invD_deps[OF assms(1), of w]
  by (intro fold_depend_inv) auto

lemma fold_addDep_frame2:
  "traverse (fold (addDep w) ds s) = traverse s" "production (fold (addDep w) ds s) = production s"
  "async (fold (addDep w) ds s) = async s" "shouldObserve (fold (addDep w) ds s) = shouldObserve s"
  "serverRendering (fold (addDep w) ds s) = serverRendering s"
  by (induction ds arbitrary: s; simp add: addDep_def addSub_def upd_watcher_def Let_def)+

lemma prune_frame2:
  "traverse (prune w ds s) = traverse s" "production (prune w ds s) = production s"
  "async (prune w ds s) = async s" "shouldObserve (prune w ds s) = shouldObserve s"
  "serverRendering (prune w ds s) = serverRendering s"
  unfolding prune_def by (induction ds arbitrary: s; simp add: removeSub_def)+

lemma count_le_1: "subs_inv s \<Longrightarrow> count_list (subs s d) w \<le> 1"
  using subs_invD1[of s d] by (cases "w \<in> set (subs s d)") (simp_all add: count_list_distinct count_list_0_iff)

text \<open>
  Claim C5. Whatever the number \<open>N \<ge> 1\<close> of times an evaluation of a live watcher
  reads a \<open>Dep\<close>, the watcher stands exactly once in that \<open>Dep\<close>'s subscriber list
  afterwards; the subscription invariant is kept, and under it no watcher occurs
  twice in any subscriber list.
\<close>

theorem subscribed_exactly_once:
  assumes "subs_inv s" and "w \<le> watcher_uid s" and "active (watchers s w)"
    and "set (reads w s) \<subseteq> {..<dep_uid s}" and "0 < count_list (reads w s) d"
  shows "count_list (subs (snd (get w s)) d) w = 1 \<and> subs_inv (snd (get w s)) \<and>
         (\<forall>w' d'. count_list (subs (snd (get w s)) d') w' \<le> 1)"
proof -
  have "d \<in> set (reads w s)" using assms(5) by (metis count_list_0_iff less_numeral_extra(3))
  with assms have "count_list (subs (snd (get w s)) d) w = 1" by (simp add: get_subscribed_once)
  moreover have i: "subs_inv (snd (get w s))" using assms(1,4,2) by (rule get_inv)
  moreover have "count_list (subs (snd (get w s)) d') w' \<le> 1" for w' d' using i by (rule count_le_1)
  ultimately show ?thesis by blast
qed

lemma get_frame [simp]:
  "dep_uid (snd (get w s)) = dep_uid s" "watcher_uid (snd (get w s)) = watcher_uid s"
  "heap (snd (get w s)) = heap s" "sch (snd (get w s)) = sch s"
  "events (snd (get w s)) = events s @ [Eval w]" "traverse (snd (get w s)) = traverse s"
  "targetStack (snd (get w s)) = targetStack s"
  "production (snd (get w s)) = production s" "async (snd (get w s)) = async s"
  "shouldObserve (snd (get w s)) = shouldObserve s" "serverRendering (snd (get w s)) = serverRendering s"
  by (simp_all add: get_eq popTarget_def emit_def pushTarget_def Let_def cleanupDeps_prune upd_watcher_def
      fold_addDep_frame2 prune_frame2)

lemma addDep_static:
  "deep (watchers (addDep w d s) w') = deep (watchers s w')"
  "user (watchers (addDep w d s) w') = user (watchers s w')"
  "lazy (watchers (addDep w d s) w') = lazy (watchers s w')"
  "sync (watchers (addDep w d s) w') = sync (watchers s w')"
  "before (watchers (addDep w d s) w') = before (watchers s w')"
  "dirty (watchers (addDep w d s) w') = dirty (watchers s w')"
  "value (watchers (addDep w d s) w') = value (watchers s w')"
  "getter (watchers (addDep w d s) w') = getter (watchers s w')"
  "cb (watchers (addDep w d s) w') = cb (watchers s w')"
  by (simp_all add: addDep_def addSub_def upd_watcher_def Let_def)

lemma fold_addDep_static:
  "deep (watchers (fold (addDep w) ds s) w') = deep (watchers s w')"
  "user (watchers (fold (addDep w) ds s) w') = user (watchers s w')"
  "lazy (watchers (fold (addDep w) ds s) w') = lazy (watchers s w')"
  "sync (watchers (fold (addDep w) ds s) w') = sync (watchers s w')"
  "before (watchers (fold (addDep w) ds s) w') = before (watchers s w')"
  "dirty (watchers (fold (addDep w) ds s) w') = dirty (watchers s w')"
  "value (watchers (fold (addDep w) ds s) w') = value (watchers s w')"
  "getter (watchers (fold (addDep w) ds s) w') = getter (watchers s w')"
  "cb (watchers (fold (addDep w) ds s) w') = cb (watchers s w')"
  by (induction ds arbitrary: s; simp add: addDep_static)+

lemma get_static:
  "deep (watchers (snd (get w s)) w') = deep (watchers s w')"
  "user (watchers (snd (get w s)) w') = user (watchers s w')"
  "lazy (watchers (snd (get w s)) w') = lazy (watchers s w')"
  "sync (watchers (snd (get w s)) w') = sync (watchers s w')"
  "before (watchers (snd (get w s)) w') = before (watchers s w')"
  "dirty (watchers (snd (get w s)) w') = dirty (watchers s w')"
  "value (watchers (snd (get w s)) w') = value (watchers s w')"
  "getter (watchers (snd (get w s)) w') = getter (watchers s w')"
  "cb (watchers (snd (get w s)) w') = cb (watchers s w')"
  by (cases "w' = w"; simp add: get_eq cleanupDeps_watchers popTarget_def Let_def emit_def pushTarget_def
        fold_addDep_static)+


lemma get_value: "fst (get w s) = snd (getter (watchers s w) (heap s))"
  by (simp add: get_eq)

lemma reads_get [simp]: "reads w' (snd (get w s)) = reads w' s"
  by (simp add: reads_def get_static Let_def)

lemma get_newDepIds [simp]:
  "newDepIds (watchers (snd (get w s)) w) = {}" "newDeps (watchers (snd (get w s)) w) = []"
  by (simp_all add: get_eq cleanupDeps_watchers)

lemma demo_inv: "subs_inv demo_state"
  unfolding demo_state_def
  by (intro new_Watcher_inv new_Dep_inv init_inv) (simp_all add: new_Dep_def init_def demo_getter_def)

lemma demo_facts:
  "watcher_uid demo_state = Suc 0" "reads (Suc 0) demo_state = [0, 0, 0]" "dep_uid demo_state = 2"
  "active (watchers demo_state (Suc 0))" "heap demo_state = []" "newDepIds (watchers demo_state (Suc 0)) = {}"
  by (simp_all add: demo_state_def new_Watcher_def new_Dep_def init_def reads_def demo_getter_def Let_def
     upd_watcher_def get_static get_active split_beta)

theorem subscribed_exactly_once_witness:
  "subs_inv demo_state \<and> Suc 0 \<le> watcher_uid demo_state \<and> active (watchers demo_state (Suc 0)) \<and>
   set (reads (Suc 0) demo_state) \<subseteq> {..<dep_uid demo_state} \<and> count_list (reads (Suc 0) demo_state) 0 = 3 \<and>
   count_list (subs (snd (get (Suc 0) demo_state)) 0) (Suc 0) = 1"
  using subscribed_exactly_once[of demo_state "Suc 0" 0] demo_inv by (simp add: demo_facts)

text \<open>
  Claim C6. A watcher reads \<open>A\<close> and not \<open>B\<close> in a first evaluation; the store
  changes; it reads \<open>B\<close> and not \<open>A\<close> in a second one. After the second evaluation it
  is no longer among the subscribers of \<open>A\<close>, it is among those of \<open>B\<close>, and its
  dependency set is exactly what the second evaluation read.
\<close>

theorem dependency_pruning:
  assumes "subs_inv s" and "w \<le> watcher_uid s" and "active (watchers s w)"
    and "newDepIds (watchers s w) = {}"
    and "set (reads w s) \<subseteq> {..<dep_uid s}" and "A \<in> set (reads w s)" and "B \<notin> set (reads w s)"
    and "s1 = (snd (get w s))\<lparr>heap := h\<rparr>"
    and "set (reads w s1) \<subseteq> {..<dep_uid s}" and "B \<in> set (reads w s1)" and "A \<notin> set (reads w s1)"
    and "s2 = snd (get w s1)"
  shows "w \<in> set (subs s1 A) \<and> w \<notin> set (subs s1 B) \<and>
         w \<notin> set (subs s2 A) \<and> w \<in> set (subs s2 B) \<and>
         depIds (watchers s2 w) = set (reads w s1) \<and> set (deps (watchers s2 w)) = set (reads w s1)"
proof -
  let ?t = "snd (get w s)"
  have v: "subs_inv s1 = subs_inv ?t" unfolding assms(8) by (rule subs_inv_view) simp_all
  have i1: "subs_inv s1" unfolding v using assms(1,5,2) by (rule get_inv)
  have f1: "w \<le> watcher_uid s1" "dep_uid s1 = dep_uid s" "subs s1 = subs ?t" "watchers s1 = watchers ?t"
    using assms(2) by (simp_all add: assms(8))
  have a1: "active (watchers s1 w)" using assms(3) by (simp add: f1 get_active)
  have n1: "newDepIds (watchers s1 w) = {}" by (simp add: f1 get_eq cleanupDeps_watchers)
  have r2: "set (reads w s1) \<subseteq> {..<dep_uid s1}" using assms(9) by (simp add: f1)
  have e1: "w \<in> set (subs s1 d) \<longleftrightarrow> d \<in> set (reads w s)" for d
    unfolding f1 using assms(1,5,2,3,4) by (rule get_subs_iff)
  have e2: "w \<in> set (subs s2 d) \<longleftrightarrow> d \<in> set (reads w s1)" for d
    unfolding assms(12) using i1 r2 f1(1) a1 n1 by (rule get_subs_iff)
  have d2: "depIds (watchers s2 w) = set (reads w s1)"
    unfolding assms(12) by (simp add: get_depIds n1)
  have i2: "subs_inv s2" unfolding assms(12) using i1 r2 f1(1) by (rule get_inv)
  show ?thesis using assms(6,7,10,11) e1 e2 d2 subs_invD_deps[OF i2, of w] by simp
qed

lemma demo_facts2:
  "reads (Suc 0) ((snd (get (Suc 0) demo_state))\<lparr>heap := [demo_obj]\<rparr>) = [Suc 0]"
  by (simp add: demo_state_def new_Watcher_def new_Dep_def init_def reads_def demo_getter_def Let_def
     upd_watcher_def get_static split_beta)

theorem dependency_pruning_witness:
  "subs_inv demo_state \<and> Suc 0 \<le> watcher_uid demo_state \<and> active (watchers demo_state (Suc 0)) \<and>
   newDepIds (watchers demo_state (Suc 0)) = {} \<and>
   set (reads (Suc 0) demo_state) \<subseteq> {..<dep_uid demo_state} \<and>
   0 \<in> set (reads (Suc 0) demo_state) \<and> Suc 0 \<notin> set (reads (Suc 0) demo_state) \<and>
   (let s1 = (snd (get (Suc 0) demo_state))\<lparr>heap := [demo_obj]\<rparr>; s2 = snd (get (Suc 0) s1)
    in set (reads (Suc 0) s1) \<subseteq> {..<dep_uid demo_state} \<and>
       Suc 0 \<in> set (reads (Suc 0) s1) \<and> 0 \<notin> set (reads (Suc 0) s1) \<and>
       Suc 0 \<in> set (subs s1 0) \<and> Suc 0 \<notin> set (subs s1 (Suc 0)) \<and>
       Suc 0 \<notin> set (subs s2 0) \<and> Suc 0 \<in> set (subs s2 (Suc 0)) \<and>
       depIds (watchers s2 (Suc 0)) = {Suc 0} \<and> set (deps (watchers s2 (Suc 0))) = {Suc 0})"
  using dependency_pruning[of demo_state "Suc 0" 0 "Suc 0" "(snd (get (Suc 0) demo_state))\<lparr>heap := [demo_obj]\<rparr>" "[demo_obj]"
      "snd (get (Suc 0) ((snd (get (Suc 0) demo_state))\<lparr>heap := [demo_obj]\<rparr>))"] demo_inv
  by (simp add: demo_facts demo_facts2 Let_def)

lemma fold_depend_static:
  "deep (watchers (fold depend ds s) w') = deep (watchers s w')"
  "user (watchers (fold depend ds s) w') = user (watchers s w')"
  "lazy (watchers (fold depend ds s) w') = lazy (watchers s w')"
  "sync (watchers (fold depend ds s) w') = sync (watchers s w')"
  "before (watchers (fold depend ds s) w') = before (watchers s w')"
  "dirty (watchers (fold depend ds s) w') = dirty (watchers s w')"
  "value (watchers (fold depend ds s) w') = value (watchers s w')"
  "getter (watchers (fold depend ds s) w') = getter (watchers s w')"
  "cb (watchers (fold depend ds s) w') = cb (watchers s w')"
  "active (watchers (fold depend ds s) w') = active (watchers s w')"
  by (cases "target s"; simp add: fold_depend fold_depend_None fold_addDep_static; cases "w' = the (target s)"; simp)+

lemma fold_depend_frame:
  "heap (fold depend ds s) = heap s" "events (fold depend ds s) = events s"
  "sch (fold depend ds s) = sch s" "traverse (fold depend ds s) = traverse s"
  "dep_uid (fold depend ds s) = dep_uid s" "watcher_uid (fold depend ds s) = watcher_uid s"
  "target (fold depend ds s) = target s" "targetStack (fold depend ds s) = targetStack s"
  by (cases "target s"; simp add: fold_depend fold_depend_None fold_addDep_frame2)+

lemma computedGetter_dirty:
  assumes "dirty (watchers s w)"
  shows "fst (computedGetter (Some w) s) = snd (getter (watchers s w) (heap s))"
    and "events (snd (computedGetter (Some w) s)) = events s @ [Eval w]"
    and "value (watchers (snd (computedGetter (Some w) s)) w) = snd (getter (watchers s w) (heap s))"
    and "\<not> dirty (watchers (snd (computedGetter (Some w) s)) w)"
    and "heap (snd (computedGetter (Some w) s)) = heap s"
    and "getter (watchers (snd (computedGetter (Some w) s)) w) = getter (watchers s w)"
    and "lazy (watchers (snd (computedGetter (Some w) s)) w) = lazy (watchers s w)"
  using assms
  by (simp_all add: computedGetter_def evaluate_def watcher_depend_def Let_def split_beta
        fold_depend_static fold_depend_frame upd_watcher_def get_static get_value)

lemma computedGetter_clean:
  assumes "\<not> dirty (watchers s w)"
  shows "fst (computedGetter (Some w) s) = value (watchers s w)"
    and "events (snd (computedGetter (Some w) s)) = events s"
    and "value (watchers (snd (computedGetter (Some w) s)) w) = value (watchers s w)"
    and "\<not> dirty (watchers (snd (computedGetter (Some w) s)) w)"
    and "heap (snd (computedGetter (Some w) s)) = heap s"
    and "getter (watchers (snd (computedGetter (Some w) s)) w) = getter (watchers s w)"
    and "lazy (watchers (snd (computedGetter (Some w) s)) w) = lazy (watchers s w)"
    and "target s = None \<Longrightarrow> snd (computedGetter (Some w) s) = s"
  using assms
  by (simp_all add: computedGetter_def evaluate_def watcher_depend_def Let_def split_beta
        fold_depend_static fold_depend_frame)

lemma new_Watcher_lazy:
  assumes "o_lazy opts"
  shows "fst (new_Watcher g c (Some opts) s) = watcher_uid s + 1"
    and "events (snd (new_Watcher g c (Some opts) s)) = events s"
    and "heap (snd (new_Watcher g c (Some opts) s)) = heap s"
    and "value (watchers (snd (new_Watcher g c (Some opts) s)) (watcher_uid s + 1)) = Undefined"
    and "dirty (watchers (snd (new_Watcher g c (Some opts) s)) (watcher_uid s + 1))"
    and "lazy (watchers (snd (new_Watcher g c (Some opts) s)) (watcher_uid s + 1))"
    and "getter (watchers (snd (new_Watcher g c (Some opts) s)) (watcher_uid s + 1)) = g"
  using assms by (simp_all add: new_Watcher_def Let_def)

lemma update_lazy:
  "lazy (watchers s w) \<Longrightarrow> update R w s = Some (upd_watcher w (\<lambda>W. W\<lparr>dirty := True\<rparr>) s)"
  by (simp add: update_def)

text \<open>
  Claim C8. Registering a lazy watcher runs no getter and leaves its value undefined;
  the first read evaluates the getter once; further reads return the cached value
  and evaluate nothing; \<open>update()\<close>, which is all a notifying \<open>Dep\<close> calls, only sets
  \<open>dirty\<close>; and the read after that evaluates the getter again, in the store as it is
  then.
\<close>

theorem lazy_watcher:
  assumes "o_lazy opts"
    and "(w, s0) = new_Watcher g c (Some opts) s"
    and "(v1, s1) = computedGetter (Some w) s0"
    and "(v2, s2) = computedGetter (Some w) s1"
    and "(v3, s3) = computedGetter (Some w) s2"
    and "s4 = (upd_watcher w (\<lambda>W. W\<lparr>dirty := True\<rparr>) s3)\<lparr>heap := h\<rparr>"
    and "(v5, s5) = computedGetter (Some w) s4"
  shows "events s0 = events s \<and> value (watchers s0 w) = Undefined \<and>
         v1 = snd (g (heap s)) \<and> events s1 = events s @ [Eval w] \<and>
         v2 = v1 \<and> v3 = v1 \<and> events s3 = events s1 \<and>
         update R w s3 = Some (upd_watcher w (\<lambda>W. W\<lparr>dirty := True\<rparr>) s3) \<and>
         v5 = snd (g h) \<and> events s5 = events s1 @ [Eval w]"
proof -
  have w: "w = watcher_uid s + 1" and s0: "s0 = snd (new_Watcher g c (Some opts) s)"
    using assms(2) new_Watcher_lazy(1)[OF assms(1), of g c s] by (metis fst_conv snd_conv)+
  note n = new_Watcher_lazy[OF assms(1), of g c s, folded s0 w]
  have s1: "s1 = snd (computedGetter (Some w) s0)" "v1 = fst (computedGetter (Some w) s0)"
    using assms(3) by (metis fst_conv snd_conv)+
  note c1 = computedGetter_dirty[OF n(5), folded s1]
  have s2: "s2 = snd (computedGetter (Some w) s1)" "v2 = fst (computedGetter (Some w) s1)"
    using assms(4) by (metis fst_conv snd_conv)+
  note c2 = computedGetter_clean(1-7)[OF c1(4), folded s2]
  have s3: "s3 = snd (computedGetter (Some w) s2)" "v3 = fst (computedGetter (Some w) s2)"
    using assms(5) by (metis fst_conv snd_conv)+
  note c3 = computedGetter_clean(1-7)[OF c2(4), folded s3]
  have d4: "dirty (watchers s4 w)" "getter (watchers s4 w) = g" "heap s4 = h" "events s4 = events s3"
    unfolding assms(6) using c3 c2 c1 n by (simp_all add: upd_watcher_def)
  have s5: "s5 = snd (computedGetter (Some w) s4)" "v5 = fst (computedGetter (Some w) s4)"
    using assms(7) by (metis fst_conv snd_conv)+
  note c5 = computedGetter_dirty[OF d4(1), folded s5]
  have l3: "lazy (watchers s3 w)" using c3 c2 c1 n by simp
  show ?thesis
    using n c1 c2 c3 c5 d4 update_lazy[OF l3, of R] by simp
qed

theorem lazy_watcher_witness:
  "o_lazy lazy_opts \<and>
   (let p0 = new_Watcher size_getter (\<lambda>_ _ _. []) (Some lazy_opts) (snd (new_Dep init));
        p1 = computedGetter (Some (fst p0)) (snd p0);
        p2 = computedGetter (Some (fst p0)) (snd p1);
        p3 = computedGetter (Some (fst p0)) (snd p2);
        s4 = (upd_watcher (fst p0) (\<lambda>W. W\<lparr>dirty := True\<rparr>) (snd p3))\<lparr>heap := [demo_obj]\<rparr>;
        p5 = computedGetter (Some (fst p0)) s4
    in events (snd p0) = [] \<and> value (watchers (snd p0) (fst p0)) = Undefined \<and>
       fst p1 = Num 0 \<and> events (snd p1) = [Eval 1] \<and> fst p2 = Num 0 \<and> fst p3 = Num 0 \<and>
       events (snd p3) = [Eval 1] \<and> fst p5 = Num 1 \<and> events (snd p5) = [Eval 1, Eval 1])"
proof -
  let ?p0 = "new_Watcher size_getter (\<lambda>_ _ _. []) (Some lazy_opts) (snd (new_Dep init))"
  have l: "o_lazy lazy_opts" by (simp add: lazy_opts_def)
  have w: "fst ?p0 = 1" by (simp add: new_Watcher_def Let_def lazy_opts_def new_Dep_def init_def)
  show ?thesis
    using lazy_watcher[OF l prod.collapse prod.collapse prod.collapse
        prod.collapse refl prod.collapse,
        where g = size_getter and c = "\<lambda>_ _ _. []" and s = "snd (new_Dep init)" and h = "[demo_obj]"] l w
    by (simp add: Let_def size_getter_def new_Dep_def init_def)
qed






lemma circular_state_eq:
  "circular_state = (round_state 0 [Eval 1, Notify 1] [])\<lparr>sch := (sch (round_state 0 [Eval 1, Notify 1] []))
      \<lparr>flushing := False, callbacks := 1, pending := True\<rparr>\<rparr>"
  unfolding circular_state_def round_state_def
  apply (simp add: observe_def observe_body_def obj_at_def init_def new_Observer_def x_object_def demo_obj_def
      new_Dep_def upd_obj_def walk_def Let_def defineReactive_def prop_value_def set_prop_def)
  apply (simp add: new_Watcher_def Let_def get_eq reads_def x_getter_def prop_value_def emit_def pushTarget_def
      addDep_def upd_watcher_def addSub_def popTarget_def cleanupDeps_def)
  apply (simp add: assign_def obj_at_def reactiveSetter_def strict_eq_def set_prop_def upd_obj_def observe_def
     observe_body_def notify_def emit_def update_def queueWatcher_def nextTick_def Let_def noop_watcher_def
     set_childOb_def)
  apply (auto simp: fun_eq_iff)
  done

lemma insert_pos_stop: "insert_pos q k w (Suc k) = Suc k"
  by simp

lemma round_run:
  "run_body R 1 ((round_state k evs rn)\<lparr>sch := (sch (round_state k evs rn))\<lparr>has := {}, ran := rn @ [1]\<rparr>\<rparr>)
   = Some ((round_state (Suc k) (evs @ [Eval 1, Callback 1 (Num (int k + 1)) (Num (int k)), Notify 1]) (rn @ [1]))
        \<lparr>sch := (sch (round_state (Suc k) (evs @ [Eval 1, Callback 1 (Num (int k + 1)) (Num (int k)), Notify 1]) (rn @ [1])))
          \<lparr>index := k\<rparr>\<rparr>)"
  unfolding round_state_def
  apply (simp add: run_body_def get_eq reads_def x_getter_def prop_value_def emit_def pushTarget_def
      addDep_def upd_watcher_def addSub_def popTarget_def cleanupDeps_def Let_def noop_watcher_def
      strict_eq_def x_bump_def act_def)
  apply (simp add: assign_def obj_at_def reactiveSetter_def strict_eq_def set_prop_def upd_obj_def observe_def
     observe_body_def notify_def emit_def update_def queueWatcher_def nextTick_def Let_def demo_obj_def
     replicate_append_same set_childOb_def)
  apply (auto simp: fun_eq_iff algebra_simps)
  done

lemma round_run_fuel:
  "run m 1 ((round_state k evs rn)\<lparr>sch := (sch (round_state k evs rn))\<lparr>has := {}, ran := rn @ [1]\<rparr>\<rparr>)
   = Some ((round_state (Suc k) (evs @ [Eval 1, Callback 1 (Num (int k + 1)) (Num (int k)), Notify 1]) (rn @ [1]))
        \<lparr>sch := (sch (round_state (Suc k) (evs @ [Eval 1, Callback 1 (Num (int k + 1)) (Num (int k)), Notify 1]) (rn @ [1])))
          \<lparr>index := k\<rparr>\<rparr>)"
  by (cases m) (simp_all only: run.simps round_run)

lemma round_facts:
  "index (sch (round_state k evs rn)) = k" "queue (sch (round_state k evs rn)) = replicate (Suc k) 1"
  "\<not> before (watchers (round_state k evs rn) 1)" "has (sch (round_state k evs rn)) = {1}"
  "ran (sch (round_state k evs rn)) = rn"
  by (simp_all add: round_state_def noop_watcher_def)

lemma round_next:
  "(round_state (Suc k) evs rn)\<lparr>sch := (sch (round_state (Suc k) evs rn))\<lparr>index := k\<rparr>\<rparr>
     \<lparr>sch := (sch ((round_state (Suc k) evs rn)\<lparr>sch := (sch (round_state (Suc k) evs rn))\<lparr>index := k\<rparr>\<rparr>))
        \<lparr>index := index (sch ((round_state (Suc k) evs rn)\<lparr>sch := (sch (round_state (Suc k) evs rn))\<lparr>index := k\<rparr>\<rparr>)) + 1\<rparr>\<rparr>
   = round_state (Suc k) evs rn"
  by (simp add: round_state_def)

lemma flush_loop_diverges: "flush_loop n (round_state k evs rn) = None"
proof (induction n arbitrary: k evs rn)
  case 0
  show ?case by (subst flush_loop.simps) (simp add: round_facts)
next
  case (Suc n)
  have nth: "replicate (Suc k) (1::nat) ! k = 1" by (simp only: nth_replicate lessI)
  show ?case
    apply (subst flush_loop.simps)
    apply (simp only: round_facts length_replicate lessI if_True nat.case Let_def nth if_False
        Diff_cancel round_run_fuel option.case round_next Suc.IH)
    done
qed

text \<open>
  Claim C1 says that a watcher re-queued more than \<open>MAX_UPDATE_COUNT\<close> times in one
  flush is stopped and reported, so that every flush ends. This
  \<open>flushSchedulerQueue\<close> never counts: \<open>circular\<close> is only ever reset. With the
  self-invalidating watcher queued, the flush that the batcher starts returns for no
  amount of fuel.
\<close>

theorem flush_never_returns:
  "flushCallbacks n circular_state = None"
proof -
  have b: "(circular_state\<lparr>sch := (sch circular_state)\<lparr>pending := False, callbacks := 0\<rparr>\<rparr>
             \<lparr>sch := (sch (circular_state\<lparr>sch := (sch circular_state)\<lparr>pending := False, callbacks := 0\<rparr>\<rparr>))
                \<lparr>flushing := True,
                 queue := sort (queue (sch (circular_state\<lparr>sch := (sch circular_state)\<lparr>pending := False, callbacks := 0\<rparr>\<rparr>))),
                 index := 0\<rparr>\<rparr>)
           = round_state 0 [Eval 1, Notify 1] []"
    by (simp add: circular_state_eq round_state_def)
  have c: "callbacks (sch circular_state) = 1"
    by (simp add: circular_state_eq round_state_def)
  have "flushSchedulerQueue n (circular_state\<lparr>sch := (sch circular_state)\<lparr>pending := False, callbacks := 0\<rparr>\<rparr>) = None"
    unfolding flushSchedulerQueue_def Let_def b by (simp add: flush_loop_diverges)
  then show ?thesis
    by (simp add: flushCallbacks_def Let_def c)
qed

lemma map_of_put: "map_of (put k p ps) k' = (if k' = k then Some p else map_of ps k')"
  by (induction ps) auto

lemma sort_single [simp]: "sort [w::nat] = [w]"
  by simp

lemma put_put [simp]: "put k p (put k p' ps) = put k p ps"
  by (induction ps) auto

lemma same_value_iff: "(strict_eq a b \<or> (\<not> strict_eq a a \<and> \<not> strict_eq b b)) = (a = b)"
  by (auto simp: strict_eq_def)

lemma observe_primitive: "\<not> isObject v \<Longrightarrow> observe v r s = Some (None, s)"
  by (cases v) (simp_all add: observe_def observe_body_def isObject_def)

text \<open>
  Writing a primitive that differs from the current value into a plain reactive
  member whose only subscriber is a queued (neither lazy nor sync) watcher.
\<close>

lemma assign_member:
  assumes "a < length (heap s)" "\<not> isArray (heap s ! a)"
    and "map_of (props (heap s ! a)) k = Some (Reactive r)"
    and "\<not> r_getter r" "\<not> r_setter r" "r_val r \<noteq> v" "\<not> isObject v"
    and "subs s (r_dep r) = [w]" "\<not> lazy (watchers s w)" "\<not> sync (watchers s w)"
  shows "assign R a k v s =
    Some (s\<lparr>heap := (heap s)[a := (heap s ! a)\<lparr>props :=
                 put k (Reactive (r\<lparr>r_val := v, r_childOb := None\<rparr>)) (props (heap s ! a))\<rparr>],
             events := events s @ [Notify (r_dep r)],
             sch := queueWatcher w (sch s)\<rparr>)"
  using assms
  by (auto simp add: assign_def obj_at_def reactiveSetter_def Let_def observe_primitive same_value_iff
      set_childOb_def set_prop_def upd_obj_def map_of_put notify_def emit_def update_def)

lemma run_body_fires:
  assumes "active (watchers s w)" and "snd (getter (watchers s w) (heap s)) = v"
    and "value (watchers s w) = old" and "v \<noteq> old" and "cb (watchers s w) = (\<lambda>_ _ _. [])"
  shows "run_body R w s =
     Some (emit (Callback w v old) (upd_watcher w (\<lambda>W. W\<lparr>value := v\<rparr>) (snd (get w s))))"
proof -
  have "\<not> strict_eq v old" using assms(4) by (simp add: strict_eq_def)
  then show ?thesis
    using assms(1,2,3,5)
    by (simp add: run_body_def split_beta Let_def get_value get_static emit_def upd_watcher_def)
qed

lemma run_fires:
  assumes "active (watchers s w)" and "snd (getter (watchers s w) (heap s)) = v"
    and "value (watchers s w) = old" and "v \<noteq> old" and "cb (watchers s w) = (\<lambda>_ _ _. [])"
  shows "run n w s =
     Some (emit (Callback w v old) (upd_watcher w (\<lambda>W. W\<lparr>value := v\<rparr>) (snd (get w s))))"
  by (cases n) (simp_all only: run.simps run_body_fires[OF assms])

lemma queueWatcher_idle:
  assumes "queue q = []" "has q = {}" "\<not> flushing q" "\<not> waiting q" "callbacks q = 0" "\<not> pending q"
  shows "queueWatcher w q = q\<lparr>has := {w}, queue := [w], waiting := True, callbacks := 1,
           pending := True, timers := timers q + 1\<rparr>"
  using assms by (simp add: queueWatcher_def nextTick_def Let_def)

lemma queueWatcher_again: "w \<in> has q \<Longrightarrow> queueWatcher w q = q"
  by (simp add: queueWatcher_def)

lemma flush_loop_done: "\<not> index (sch s) < length (queue (sch s)) \<Longrightarrow> flush_loop n s = Some s"
  by (subst flush_loop.simps) simp

text \<open>
  Claim C2. An object has the plain reactive members \<open>kx\<close> and \<open>ky\<close>, both \<open>1\<close>; one
  watcher, neither lazy nor sync, is the only subscriber of both, its getter returns
  their sum, its value is \<open>2\<close>, and its callback writes nothing. The scheduler is idle.
  The two writes \<open>x = 2\<close> and \<open>y = 2\<close> notify and call nothing back; the flush that
  follows evaluates the getter once and calls the callback exactly once, with
  \<open>(4, 2)\<close>.
\<close>

theorem batching:
  assumes obj: "a < length (heap s)" "\<not> isArray (heap s ! a)"
    and x: "map_of (props (heap s ! a)) kx = Some (Reactive rx)" "r_val rx = Num 1"
           "\<not> r_getter rx" "\<not> r_setter rx"
    and y: "map_of (props (heap s ! a)) ky = Some (Reactive ry)" "r_val ry = Num 1"
           "\<not> r_getter ry" "\<not> r_setter ry"
    and keys: "kx \<noteq> ky"
    and w: "\<not> lazy (watchers s w)" "\<not> sync (watchers s w)" "active (watchers s w)"
           "value (watchers s w) = Num 2"
           "getter (watchers s w) = sum_getter a kx ky (r_dep rx) (r_dep ry)"
           "cb (watchers s w) = (\<lambda>_ _ _. [])"
    and sub: "subs s (r_dep rx) = [w]" "subs s (r_dep ry) = [w]"
    and idle: "queue (sch s) = []" "has (sch s) = {}" "\<not> flushing (sch s)" "\<not> waiting (sch s)"
           "callbacks (sch s) = 0" "\<not> pending (sch s)"
  shows "map_option events (two_writes_then_flush R (Suc n) a kx (Num 2) ky (Num 2) s) =
           Some (events s @ [Notify (r_dep rx), Notify (r_dep ry)]
                   @ (if before (watchers s w) then [Before w] else [])
                   @ [Eval w, Callback w (Num 4) (Num 2)])"
proof -
  define px where "px = put kx (Reactive (rx\<lparr>r_val := Num 2, r_childOb := None\<rparr>)) (props (heap s ! a))"
  define s1 where "s1 = s\<lparr>heap := (heap s)[a := (heap s ! a)\<lparr>props := px\<rparr>],
             events := events s @ [Notify (r_dep rx)], sch := queueWatcher w (sch s)\<rparr>"
  have a1: "assign R a kx (Num 2) s = Some s1"
    unfolding s1_def px_def
    by (rule assign_member[OF obj x(1,3,4) _ _ sub(1) w(1,2)]) (simp_all add: x(2) isObject_def)
  have q1: "sch s1 = (sch s)\<lparr>has := {w}, queue := [w], waiting := True, callbacks := 1,
           pending := True, timers := timers (sch s) + 1\<rparr>"
    by (simp add: s1_def queueWatcher_idle[OF idle])
  define py where "py = put ky (Reactive (ry\<lparr>r_val := Num 2, r_childOb := None\<rparr>)) px"
  define s2 where "s2 = s1\<lparr>heap := (heap s1)[a := (heap s1 ! a)\<lparr>props := py\<rparr>],
             events := events s1 @ [Notify (r_dep ry)], sch := queueWatcher w (sch s1)\<rparr>"
  have h1: "a < length (heap s1)" "\<not> isArray (heap s1 ! a)" "props (heap s1 ! a) = px"
    using obj by (simp_all add: s1_def)
  have y1: "map_of (props (heap s1 ! a)) ky = Some (Reactive ry)"
    using keys y(1) by (simp add: h1 px_def map_of_put)
  have w1: "watchers s1 = watchers s" "subs s1 = subs s" by (simp_all add: s1_def)
  have a2: "assign R a ky (Num 2) s1 = Some s2"
    unfolding s2_def py_def h1(3)[symmetric]
    by (rule assign_member[OF h1(1,2) y1 y(3,4)]) (simp_all add: y(2) isObject_def w1 sub w)
  have q2: "sch s2 = sch s1" by (simp add: s2_def q1 queueWatcher_again)
  have e2: "events s2 = events s @ [Notify (r_dep rx), Notify (r_dep ry)]"
    by (simp add: s2_def s1_def)
  have h2: "props (heap s2 ! a) = py" using h1(1) by (simp add: s2_def)
  have w2: "watchers s2 = watchers s" by (simp add: s2_def w1)
  have v2: "snd (sum_getter a kx ky (r_dep rx) (r_dep ry) (heap s2)) = Num 4"
    using keys x(3) y(3)
    by (simp add: sum_getter_def h2 py_def px_def map_of_put prop_value_def add_vals_def)
  let ?pre = "\<lambda>t. t\<lparr>sch := (sch t)\<lparr>has := has (sch t) - {w}, ran := ran (sch t) @ [w]\<rparr>\<rparr>"
  define s2a where "s2a = s2\<lparr>sch := (sch s2)\<lparr>pending := False, callbacks := 0\<rparr>\<rparr>"
  define s2b where "s2b = s2a\<lparr>sch := (sch s2a)\<lparr>flushing := True, queue := sort (queue (sch s2a)), index := 0\<rparr>\<rparr>"
  define s2c where "s2c = (if before (watchers s2b w) then emit (Before w) s2b else s2b)"
  define s2d where "s2d = ?pre s2c"
  have wd: "watchers s2d = watchers s" "heap s2d = heap s2"
    by (simp_all add: s2d_def s2c_def s2b_def s2a_def w2 emit_def)
  define s2e where "s2e = emit (Callback w (Num 4) (Num 2)) (upd_watcher w (\<lambda>W. W\<lparr>value := Num 4\<rparr>) (snd (get w s2d)))"
  have r: "run n w s2d = Some s2e"
    unfolding s2e_def
    by (rule run_fires) (simp_all add: wd w v2)
  have qd: "queue (sch s2d) = [w]" "index (sch s2d) = 0"
    by (simp_all add: s2d_def s2c_def s2b_def s2a_def q2 q1 emit_def)
  have qe: "sch s2e = sch s2d"
    by (simp add: s2e_def emit_def upd_watcher_def)
  have qb: "queue (sch s2b) = [w]" "index (sch s2b) = 0"
    by (simp_all add: s2b_def s2a_def q2 q1)
  have l: "flush_loop (Suc n) s2b = Some (s2e\<lparr>sch := (sch s2e)\<lparr>index := index (sch s2e) + 1\<rparr>\<rparr>)"
    apply (subst flush_loop.simps)
    apply (simp add: qb Let_def s2c_def[symmetric])
    apply (simp add: s2d_def[symmetric] r)
    apply (rule flush_loop_done)
    apply (simp add: qe qd)
    done
  define s3 where "s3 = (s2e\<lparr>sch := (sch s2e)\<lparr>index := index (sch s2e) + 1\<rparr>\<rparr>)
      \<lparr>sch := resetSchedulerState (production s2e) ((sch s2e)\<lparr>index := index (sch s2e) + 1\<rparr>)\<rparr>"
  have f: "flushSchedulerQueue (Suc n) s2a = Some s3"
    by (simp add: flushSchedulerQueue_def Let_def s2b_def[symmetric] l s3_def)
  have c: "callbacks (sch s2) = 1" by (simp add: q2 q1)
  have fc: "flushCallbacks (Suc n) s2 = Some s3"
    by (simp add: flushCallbacks_def Let_def c s2a_def[symmetric] f)
  have e3: "events s3 = events s2 @ (if before (watchers s w) then [Before w] else [])
                         @ [Eval w, Callback w (Num 4) (Num 2)]"
    by (simp add: s3_def s2e_def emit_def upd_watcher_def s2d_def s2c_def s2b_def s2a_def w2)
  show ?thesis
    by (simp add: two_writes_then_flush_def a1 a2 fc e3 e2)
qed

lemma batch_state_eq:
  "batch_state = init\<lparr>heap := [demo_obj\<lparr>props := [
          (Name ''x'', Reactive \<lparr>r_dep = 1, r_val = Num 1, r_childOb = None, r_shallow = False,
             r_getter = False, r_setter = False, r_backing = Undefined\<rparr>),
          (Name ''y'', Reactive \<lparr>r_dep = 2, r_val = Num 1, r_childOb = None, r_shallow = False,
             r_getter = False, r_setter = False, r_backing = Undefined\<rparr>)],
          ob := Some \<lparr>ob_dep = 0, vmCount = 1\<rparr>\<rparr>],
      dep_uid := 3, subs := (\<lambda>d. if d = 1 \<or> d = 2 then [1] else []), watcher_uid := 1,
      watchers := (\<lambda>_. noop_watcher)(1 := noop_watcher\<lparr>active := True, deps := [1, 2], depIds := {1, 2},
                    value := Num 2, getter := sum_getter 0 (Name ''x'') (Name ''y'') 1 2\<rparr>),
      events := [Eval 1]\<rparr>"
  unfolding batch_state_def
  apply (simp add: observe_def observe_body_def obj_at_def init_def new_Observer_def xy_object_def demo_obj_def
      new_Dep_def upd_obj_def walk_def Let_def defineReactive_def prop_value_def set_prop_def)
  apply (simp add: new_Watcher_def Let_def get_eq reads_def sum_getter_def prop_value_def emit_def pushTarget_def
      addDep_def upd_watcher_def addSub_def popTarget_def cleanupDeps_def add_vals_def noop_watcher_def)
  apply (auto simp: fun_eq_iff)
  done

theorem batching_witness:
  "0 < length (heap batch_state) \<and> \<not> isArray (heap batch_state ! 0) \<and>
   map_of (props (heap batch_state ! 0)) (Name ''x'') =
     Some (Reactive \<lparr>r_dep = 1, r_val = Num 1, r_childOb = None, r_shallow = False,
             r_getter = False, r_setter = False, r_backing = Undefined\<rparr>) \<and>
   map_of (props (heap batch_state ! 0)) (Name ''y'') =
     Some (Reactive \<lparr>r_dep = 2, r_val = Num 1, r_childOb = None, r_shallow = False,
             r_getter = False, r_setter = False, r_backing = Undefined\<rparr>) \<and>
   \<not> lazy (watchers batch_state 1) \<and> \<not> sync (watchers batch_state 1) \<and>
   active (watchers batch_state 1) \<and> value (watchers batch_state 1) = Num 2 \<and>
   getter (watchers batch_state 1) = sum_getter 0 (Name ''x'') (Name ''y'') 1 2 \<and>
   cb (watchers batch_state 1) = (\<lambda>_ _ _. []) \<and>
   subs batch_state 1 = [1] \<and> subs batch_state 2 = [1] \<and>
   queue (sch batch_state) = [] \<and> has (sch batch_state) = {} \<and>
   \<not> flushing (sch batch_state) \<and> \<not> waiting (sch batch_state) \<and>
   callbacks (sch batch_state) = 0 \<and> \<not> pending (sch batch_state) \<and>
   map_option events
     (two_writes_then_flush (run 0) 1 0 (Name ''x'') (Num 2) (Name ''y'') (Num 2) batch_state) =
     Some [Eval 1, Notify 1, Notify 2, Eval 1, Callback 1 (Num 4) (Num 2)]"
  using batching[where s = batch_state and a = 0 and kx = "Name ''x''" and ky = "Name ''y''" and w = 1
      and R = "run 0" and n = 0
      and rx = "\<lparr>r_dep = 1, r_val = Num 1, r_childOb = None, r_shallow = False,
             r_getter = False, r_setter = False, r_backing = Undefined\<rparr>"
      and ry = "\<lparr>r_dep = 2, r_val = Num 1, r_childOb = None, r_shallow = False,
             r_getter = False, r_setter = False, r_backing = Undefined\<rparr>"]
  by (simp add: batch_state_eq init_def noop_watcher_def demo_obj_def)

lemma wraps_refl [simp]: "wraps s s"
  by (simp add: wraps_def)

lemma wraps_trans: "wraps s t \<Longrightarrow> wraps t u \<Longrightarrow> wraps s u"
  by (simp add: wraps_def)

lemma wraps_new_Dep: "wraps s (snd (new_Dep s))"
  by (simp add: wraps_def new_Dep_def)

lemma wraps_upd_obj: "wraps s (upd_obj a f s)"
  by (simp add: wraps_def upd_obj_def)

lemma wraps_upd_obj': "wraps s t \<Longrightarrow> wraps s (upd_obj a f t)"
  by (simp add: wraps_def upd_obj_def)

lemma wraps_set_prop: "wraps s (set_prop a k p s)"
  by (simp add: set_prop_def wraps_upd_obj)

lemma each_wraps:
  assumes "\<And>x s s'. f x s = Some s' \<Longrightarrow> wraps s s'"
  shows "each f xs s = Some s' \<Longrightarrow> wraps s s'"
proof (induction xs arbitrary: s)
  case Nil then show ?case by simp
next
  case (Cons x xs)
  then show ?case by (auto split: option.splits intro: wraps_trans assms)
qed

lemma defineReactive_cases:
  assumes "defineReactive obs a k vopt sh s = Some s'"
  obtains "s' = snd (new_Dep s)"
  | r where "sh" "s' = set_prop a k (Reactive r) (snd (new_Dep s))" "r_dep r = dep_uid s"
  | r v child s2 where "\<not> sh" "obs v (snd (new_Dep s)) = Some (child, s2)"
      "s' = set_prop a k (Reactive r) s2" "r_dep r = dep_uid s" "r_childOb r = child"
  using assms
  by (auto simp: defineReactive_def Let_def split_beta new_Dep_def split: option.splits if_splits)

lemma defineReactive_wraps:
  assumes "wrapper obs" "defineReactive obs a k vopt sh s = Some s'"
  shows "wraps s s'"
  using assms(2)
proof (cases rule: defineReactive_cases)
  case 1
  then show ?thesis by (simp add: wraps_new_Dep)
next
  case (2 r)
  then show ?thesis by (auto intro: wraps_trans[OF wraps_new_Dep] wraps_set_prop)
next
  case (3 r v child s2)
  from assms(1) 3(2) have "wraps (snd (new_Dep s)) s2" by (auto simp: wrapper_def)
  with 3(3) show ?thesis by (auto intro: wraps_trans[OF wraps_new_Dep] wraps_trans[OF _ wraps_set_prop])
qed

lemma observeArray_wraps:
  assumes "wrapper obs" "observeArray obs xs s = Some s'"
  shows "wraps s s'"
  using assms(2) unfolding observeArray_def
  by (rule each_wraps[rotated]) (use assms(1) in \<open>auto simp: wrapper_def\<close>)

lemma walk_wraps:
  assumes "wrapper obs" "walk obs a s = Some s'"
  shows "wraps s s'"
  using assms(2) unfolding walk_def
  by (rule each_wraps[rotated]) (rule defineReactive_wraps[OF assms(1)])

lemma new_Observer_wraps:
  assumes "wrapper obs" "new_Observer obs a s = Some s'"
  shows "wraps s s'"
proof -
  let ?s2 = "upd_obj a (\<lambda>obj. obj\<lparr>ob := Some \<lparr>ob_dep = dep_uid s, vmCount = 0\<rparr>\<rparr>) (snd (new_Dep s))"
  have 1: "wraps s ?s2" by (rule wraps_trans[OF wraps_new_Dep wraps_upd_obj])
  from assms(2) have "observeArray obs (elems (heap ?s2 ! a)) ?s2 = Some s' \<or> walk obs a ?s2 = Some s'"
    by (auto simp: new_Observer_def Let_def split_beta new_Dep_def split: if_splits)
  then have "wraps ?s2 s'" using observeArray_wraps[OF assms(1)] walk_wraps[OF assms(1)] by blast
  with 1 show ?thesis by (rule wraps_trans)
qed

lemma observe_body_shape:
  assumes "observe_body obs v r s = Some (x, s')"
  shows "\<exists>t. (t = s \<or> (\<exists>a. v = Ref a \<and> x = Some a \<and> new_Observer obs a s = Some t)) \<and>
             (s' = t \<or> (\<exists>a f. s' = upd_obj a f t))"
proof (cases v)
  case (Ref a)
  show ?thesis
  proof (cases "obj_at s a")
    case None
    with Ref assms show ?thesis by (simp add: observe_body_def)
  next
    case (Some obj)
    show ?thesis
    proof (cases "new_Observer obs a s")
      case None
      with Ref Some assms show ?thesis
        by (simp add: observe_body_def split: if_splits) blast+
    next
      case t: (Some t)
      with Ref Some assms show ?thesis
        by (simp add: observe_body_def split: if_splits) blast+
    qed
  qed
qed (use assms in \<open>simp_all add: observe_body_def\<close>)

lemma observe_body_wraps:
  assumes "wrapper obs" "observe_body obs v r s = Some (x, s')"
  shows "wraps s s'"
proof -
  from observe_body_shape[OF assms(2)] obtain t
    where 1: "t = s \<or> (\<exists>a. v = Ref a \<and> x = Some a \<and> new_Observer obs a s = Some t)"
      and 2: "s' = t \<or> (\<exists>a f. s' = upd_obj a f t)" by blast
  from 1 have "wraps s t" using new_Observer_wraps[OF assms(1)] by auto
  with 2 show ?thesis by (auto intro: wraps_upd_obj')
qed

lemma wrapper_fuel: "wrapper (observe_fuel n)"
proof (induction n)
  case 0
  have "wrapper (\<lambda>_ _. None)" by (simp add: wrapper_def)
  then show ?case unfolding wrapper_def[of "observe_fuel 0"] by (auto dest: observe_body_wraps)
next
  case (Suc n)
  then show ?case unfolding wrapper_def[of "observe_fuel (Suc n)"] by (auto dest: observe_body_wraps)
qed

lemma observe_wraps: "observe v r s = Some (x, s') \<Longrightarrow> wraps s s'"
  unfolding observe_def by (rule observe_body_wraps[OF wrapper_fuel])

lemma wrapper_observe: "wrapper (\<lambda>x. observe x r)"
  unfolding wrapper_def by (auto dest: observe_wraps)

lemma queues_refl [simp]: "queues q q"
  unfolding queues_def by (rule exI[of _ "[]"]) simp

lemma queues_same: "q' = q \<Longrightarrow> queues q q'"
  by simp

lemma queues_trans: "queues q q' \<Longrightarrow> queues q' q'' \<Longrightarrow> queues q q''"
  unfolding queues_def by (metis fold_append comp_apply)

lemma queues_step: "queues q (queueWatcher w q)"
  unfolding queues_def by (rule exI[of _ "[w]"]) simp

lemma each_queues:
  assumes "\<And>x s s'. f x s = Some s' \<Longrightarrow> queues (sch s) (sch s')"
  shows "each f xs s = Some s' \<Longrightarrow> queues (sch s) (sch s')"
proof (induction xs arbitrary: s)
  case Nil then show ?case by simp
next
  case (Cons x xs)
  then show ?case by (auto split: option.splits intro: queues_trans assms)
qed

lemma update_queues:
  assumes "only_queues R" "update R w s = Some s'"
  shows "queues (sch s) (sch s')"
  using assms
  by (auto simp: update_def only_queues_def upd_watcher_def queues_step split: if_splits)

lemma notify_queues:
  assumes "only_queues R" "notify R d s = Some s'"
  shows "queues (sch s) (sch s')"
proof -
  have "queues (sch (emit (Notify d) s)) (sch s')"
    using assms(2) unfolding notify_def Let_def
    by (rule each_queues[rotated]) (rule update_queues[OF assms(1)])
  then show ?thesis by (simp add: emit_def)
qed

lemma sch_set_prop [simp]: "sch (set_prop a k p s) = sch s"
  by (simp add: set_prop_def upd_obj_def)

lemma sch_set_childOb [simp]: "sch (set_childOb a k c s) = sch s"
  by (simp add: set_childOb_def split: option.splits property.splits)

lemma sch_set_elems [simp]: "sch (set_elems a xs s) = sch s"
  by (simp add: set_elems_def upd_obj_def)

lemma sch_native [simp]: "sch (snd (native a m s)) = sch s"
  by (cases m) (auto simp: native_def Let_def new_array_def split: list.splits)

lemma observe_sch: "observe v r s = Some (x, s') \<Longrightarrow> sch s' = sch s"
  by (drule observe_wraps) (simp add: wraps_def)

lemma reactiveSetter_queues:
  assumes "only_queues R" "reactiveSetter R a k r v s = Some s'"
  shows "queues (sch s) (sch s')"
  using assms(2)
  by (auto simp: reactiveSetter_def Let_def split: if_splits option.splits prod.splits
      dest!: notify_queues[OF assms(1)] observe_sch)

lemma assign_queues:
  assumes "only_queues R" "assign R a k v s = Some s'"
  shows "queues (sch s) (sch s')"
  using assms(2)
  by (auto simp: assign_def split: option.splits bool.splits pkey.splits property.splits if_splits
      dest: reactiveSetter_queues[OF assms(1)])

lemma observeArray_sch: "observeArray (\<lambda>x. observe x False) xs s = Some s' \<Longrightarrow> sch s' = sch s"
  by (drule observeArray_wraps[OF wrapper_observe]) (simp add: wraps_def)

lemma mutator_queues:
  assumes "only_queues R" "mutator R a m s = Some (x, s')"
  shows "queues (sch s) (sch s')"
  using assms(2)
  by (auto simp: mutator_def split_beta split: option.splits
      dest!: notify_queues[OF assms(1)] observeArray_sch)

lemma call_method_queues:
  assumes "only_queues R" "call_method R a m s = Some (x, s')"
  shows "queues (sch s) (sch s')"
  using assms(2)
  by (auto simp: call_method_def split: option.splits if_splits dest: mutator_queues[OF assms(1)]
      intro: queues_same simp: prod_eq_iff)

lemma defineReactive_sch:
  "defineReactive (\<lambda>x. observe x False) a k vopt sh s = Some s' \<Longrightarrow> sch s' = sch s"
  by (drule defineReactive_wraps[OF wrapper_observe]) (simp add: wraps_def)

lemma set_fn_queues:
  assumes "only_queues R" "set_fn R a k v s = Some (x, s')"
  shows "queues (sch s) (sch s')"
  using assms(2)
  apply (simp add: set_fn_def Let_def split: option.splits bool.splits pkey.splits if_splits)
  apply (auto simp: emit_def dest!: call_method_queues[OF assms(1)] assign_queues[OF assms(1)]
      notify_queues[OF assms(1)] defineReactive_sch split: option.splits)
  done

lemma act_queues:
  assumes "only_queues R" "act R x s = Some s'"
  shows "queues (sch s) (sch s')"
  using assms(2)
  by (auto simp: act_def split: action.splits dest: assign_queues[OF assms(1)]
      call_method_queues[OF assms(1)] set_fn_queues[OF assms(1)])

lemma each_act_queues:
  assumes "only_queues R" "each (act R) xs s = Some s'"
  shows "queues (sch s) (sch s')"
  using assms(2) by (rule each_queues[rotated]) (rule act_queues[OF assms(1)])

lemma run_body_queues:
  assumes "only_queues R" "run_body R w s = Some s'"
  shows "queues (sch s) (sch s')"
  using assms(2)
  by (auto simp: run_body_def split_beta Let_def emit_def upd_watcher_def split: if_splits
      dest!: each_act_queues[OF assms(1)])

lemma run_queues: "only_queues (run n)"
proof (induction n)
  case 0
  have "only_queues (\<lambda>_ _. None)" by (simp add: only_queues_def)
  then show ?case unfolding only_queues_def[of "run 0"] by (auto dest: run_body_queues)
next
  case (Suc n)
  then show ?case unfolding only_queues_def[of "run (Suc n)"] by (auto dest: run_body_queues)
qed





lemma nextTick_frame [simp]:
  "queue (nextTick q) = queue q" "has (nextTick q) = has q" "index (nextTick q) = index q"
  "flushing (nextTick q) = flushing q" "ran (nextTick q) = ran q" "waiting (nextTick q) = waiting q"
  by (simp_all add: nextTick_def Let_def)

lemma queueWatcher_frame [simp]:
  "index (queueWatcher w q) = index q" "flushing (queueWatcher w q) = flushing q"
  "ran (queueWatcher w q) = ran q" "has (queueWatcher w q) = insert w (has q)"
  by (auto simp: queueWatcher_def Let_def)
















text \<open>One round of the flush loop, with the states it passes through.\<close>

lemma flush_loop_round:
  assumes "flush_loop n s = Some s'" "index (sch s) < length (queue (sch s))"
  obtains m s2 s3 where "n = Suc m"
    and "sch s2 = (sch s)\<lparr>has := has (sch s) - {queue (sch s) ! index (sch s)},
                           ran := ran (sch s) @ [queue (sch s) ! index (sch s)]\<rparr>"
    and "run m (queue (sch s) ! index (sch s)) s2 = Some s3"
    and "flush_loop m (s3\<lparr>sch := (sch s3)\<lparr>index := index (sch s3) + 1\<rparr>\<rparr>) = Some s'"
proof (cases n)
  case 0
  with assms show ?thesis by (subst (asm) flush_loop.simps) simp
next
  case (Suc m)
  let ?w = "queue (sch s) ! index (sch s)"
  let ?s1 = "if before (watchers s ?w) then emit (Before ?w) s else s"
  let ?s2 = "?s1\<lparr>sch := (sch ?s1)\<lparr>has := has (sch ?s1) - {?w}, ran := ran (sch ?s1) @ [?w]\<rparr>\<rparr>"
  have e: "sch ?s1 = sch s" by (simp add: emit_def)
  from assms Suc obtain s3 where r: "run m ?w ?s2 = Some s3"
    and l: "flush_loop m (s3\<lparr>sch := (sch s3)\<lparr>index := index (sch s3) + 1\<rparr>\<rparr>) = Some s'"
    by (subst (asm) flush_loop.simps) (auto simp: Let_def split: option.splits)
  show ?thesis
    by (rule that[OF Suc _ r l]) (simp add: emit_def)
qed



lemma queues_reach: "queues q q' \<Longrightarrow> reach Body q \<Longrightarrow> reach Body q'"
proof -
  have "reach Body q \<Longrightarrow> reach Body (fold queueWatcher ws q)" for ws
    by (induction ws arbitrary: q) (auto intro: reach.requeued)
  then show "queues q q' \<Longrightarrow> reach Body q \<Longrightarrow> reach Body q'" by (auto simp: queues_def)
qed

lemma flush_loop_reach: "flush_loop n s = Some s' \<Longrightarrow> reach Head (sch s) \<Longrightarrow> reach Head (sch s')"
proof (induction n arbitrary: s)
  case 0
  then show ?case by (subst (asm) flush_loop.simps) (auto split: if_splits)
next
  case (Suc n)
  show ?case
  proof (cases "index (sch s) < length (queue (sch s))")
    case False
    with Suc.prems show ?thesis by (subst (asm) flush_loop.simps) simp
  next
    case True
    let ?w = "queue (sch s) ! index (sch s)"
    from Suc.prems(1) True obtain m s2 s3 where m: "Suc n = Suc m"
      and s2: "sch s2 = (sch s)\<lparr>has := has (sch s) - {?w}, ran := ran (sch s) @ [?w]\<rparr>"
      and r: "run m ?w s2 = Some s3"
      and l: "flush_loop m (s3\<lparr>sch := (sch s3)\<lparr>index := index (sch s3) + 1\<rparr>\<rparr>) = Some s'"
      by (rule flush_loop_round)
    have "reach Body (sch s2)" unfolding s2 by (rule reach.dequeue[OF Suc.prems(2) True])
    moreover have "queues (sch s2) (sch s3)" using run_queues r by (auto simp: only_queues_def)
    ultimately have "reach Body (sch s3)" by (rule queues_reach[rotated])
    then have "reach Head (sch (s3\<lparr>sch := (sch s3)\<lparr>index := index (sch s3) + 1\<rparr>\<rparr>))"
      using reach.advance by simp
    with l m show ?thesis using Suc.IH by simp
  qed
qed












lemma nth_upd: "j < length xs \<Longrightarrow> xs[i := x] ! j = (if i = j then x else xs ! j)"
  by (cases "i = j") simp_all

lemma same_shape_refl [simp]: "same_shape x x"
  by (simp add: same_shape_def)

lemma same_shape_trans: "same_shape x y \<Longrightarrow> same_shape y z \<Longrightarrow> same_shape x z"
  by (simp add: same_shape_def)

lemma same_shape_observable: "same_shape x y \<Longrightarrow> observable y \<Longrightarrow> observable x"
  by (auto simp: same_shape_def observable_def)

lemma evolves_refl [simp]: "evolves s s"
  by (simp add: evolves_def)

lemma evolves_trans: "evolves s t \<Longrightarrow> evolves t u \<Longrightarrow> evolves s u"
  unfolding evolves_def by (auto intro: same_shape_trans)

lemma spares_refl [simp]: "spares s s"
  by (simp add: spares_def)

lemma spares_trans: "spares s t \<Longrightarrow> spares t u \<Longrightarrow> spares s u"
  unfolding spares_def by auto

lemma evolves_todo: "evolves s s' \<Longrightarrow> todo s' \<subseteq> todo s"
  unfolding evolves_def todo_def by (auto intro: same_shape_observable)

lemma finite_todo [simp]: "finite (todo s)"
  unfolding todo_def by simp

lemma evolves_card: "evolves s s' \<Longrightarrow> card (todo s') \<le> card (todo s)"
  by (rule card_mono[OF finite_todo evolves_todo])

lemma card_todo_le: "card (todo s) \<le> length (heap s)"
proof -
  have "todo s \<subseteq> {..<length (heap s)}" by (auto simp: todo_def)
  from card_mono[OF _ this] show ?thesis by simp
qed

lemma evolves_new_Dep: "evolves s (snd (new_Dep s))"
  by (simp add: evolves_def new_Dep_def)

lemma spares_new_Dep: "spares s (snd (new_Dep s))"
  by (simp add: spares_def new_Dep_def)

lemma evolves_upd_obj:
  "(a < length (heap s) \<Longrightarrow> same_shape (heap s ! a) (f (heap s ! a))) \<Longrightarrow> evolves s (upd_obj a f s)"
  by (auto simp: evolves_def upd_obj_def nth_upd)

lemma evolves_set_prop: "evolves s (set_prop a k p s)"
  unfolding set_prop_def by (rule evolves_upd_obj) (simp add: same_shape_def)

lemma spares_upd_obj:
  "spares s t \<Longrightarrow> observable (heap s ! a) \<Longrightarrow> spares s (upd_obj a f t)"
  by (auto simp: spares_def upd_obj_def nth_upd)

lemma mark_todo:
  assumes "a < length (heap s)" "observable (heap s ! a)"
  shows "card (todo (upd_obj a (\<lambda>obj. obj\<lparr>ob := Some x\<rparr>) s)) < card (todo s)"
proof -
  let ?s = "upd_obj a (\<lambda>obj. obj\<lparr>ob := Some x\<rparr>) s"
  have "todo ?s \<subseteq> todo s" by (auto simp: todo_def upd_obj_def nth_upd observable_def split: if_splits)
  moreover have "a \<in> todo s" using assms by (simp add: todo_def)
  moreover have "a \<notin> todo ?s" using assms by (simp add: todo_def upd_obj_def observable_def)
  ultimately have "todo ?s \<subset> todo s" by blast
  then show ?thesis by (rule psubset_card_mono[OF finite_todo])
qed

lemma each_inv:
  assumes "\<And>x t. x \<in> set xs \<Longrightarrow> I t \<Longrightarrow> \<exists>t'. f x t = Some t' \<and> I t'" and "I s"
  shows "\<exists>s'. each f xs s = Some s' \<and> I s'"
  using assms
proof (induction xs arbitrary: s)
  case Nil
  then show ?case by simp
next
  case (Cons x xs)
  from Cons.prems(1)[of x s] Cons.prems(2) obtain t where t: "f x s = Some t" "I t" by auto
  have "\<exists>s'. each f xs t = Some s' \<and> I s'"
    by (rule Cons.IH) (use Cons.prems(1) t(2) in auto)
  with t(1) show ?case by simp
qed

lemma defineReactive_total:
  assumes "\<And>x. \<exists>c t'. obs x (snd (new_Dep t)) = Some (c, t') \<and> evolves (snd (new_Dep t)) t' \<and>
              spares (snd (new_Dep t)) t'"
  shows "\<exists>t'. evolves t t' \<and> spares t t' \<and>
           (defineReactive obs a k vopt sh t = Some t' \<or>
            (\<exists>p. defineReactive obs a k vopt sh t = Some (set_prop a k p t')))"
proof -
  let ?t1 = "snd (new_Dep t)"
  have e1: "evolves t ?t1" "spares t ?t1" by (rule evolves_new_Dep, rule spares_new_Dep)
  define v where "v = (let property = map_of (props (heap ?t1 ! a)) k in
      case vopt of Some x \<Rightarrow> x
      | None \<Rightarrow> if \<not> (case property of Some (Accessor c g st b) \<Rightarrow> g | Some (Reactive r) \<Rightarrow> True | _ \<Rightarrow> False)
                   \<or> (case property of Some (Accessor c g st b) \<Rightarrow> st | Some (Reactive r) \<Rightarrow> True | _ \<Rightarrow> False)
                then prop_value property else Undefined)"
  from assms[of v] obtain c t' where o: "obs v ?t1 = Some (c, t')" "evolves ?t1 t'" "spares ?t1 t'"
    by blast
  have e2: "evolves t t'" "spares t t'"
    using e1 o by (blast intro: evolves_trans spares_trans)+
  have "defineReactive obs a k vopt sh t = Some ?t1 \<or>
        (\<exists>p. defineReactive obs a k vopt sh t = Some (set_prop a k p ?t1)) \<or>
        (\<exists>p. defineReactive obs a k vopt sh t = Some (set_prop a k p t'))"
    using o(1) unfolding defineReactive_def v_def
    by (auto simp: Let_def split_beta obj_at_def split: option.splits)
  with e1 e2 show ?thesis by blast
qed

lemma new_Observer_total:
  assumes a: "a < length (heap s)" "observable (heap s ! a)"
    and obs: "\<And>x t. card (todo t) < card (todo s) \<Longrightarrow>
               \<exists>c t'. obs x t = Some (c, t') \<and> evolves t t' \<and> spares t t'"
  shows "\<exists>s'. new_Observer obs a s = Some s' \<and> evolves s s' \<and> spares s s' \<and> ob (heap s' ! a) \<noteq> None"
proof -
  let ?s1 = "snd (new_Dep s)"
  let ?s2 = "upd_obj a (\<lambda>obj. obj\<lparr>ob := Some \<lparr>ob_dep = dep_uid s, vmCount = 0\<rparr>\<rparr>) ?s1"
  have h1: "heap ?s1 = heap s" by (simp add: new_Dep_def)
  have e: "evolves s ?s2"
    by (rule evolves_trans[OF evolves_new_Dep evolves_upd_obj]) (simp add: same_shape_def)
  have sp: "spares s ?s2"
    by (rule spares_upd_obj[OF spares_new_Dep a(2)])
  have len: "length (heap ?s2) = length (heap s)" by (simp add: upd_obj_def h1)
  have mk: "ob (heap ?s2 ! a) \<noteq> None" using a(1) by (simp add: upd_obj_def h1)
  have c2: "card (todo ?s2) < card (todo s)"
    using mark_todo[of a ?s1] a by (simp add: h1 todo_def)
  define I where "I t \<longleftrightarrow> evolves ?s2 t \<and> spares s t" for t
  have I2: "I ?s2" by (simp add: I_def sp)
  have small: "card (todo t) < card (todo s)" if "I t" for t
    using evolves_card[of ?s2 t] that c2 by (simp add: I_def)
  have step: "\<exists>c t'. obs x t = Some (c, t') \<and> I t'" if "I t" for x t
  proof -
    from obs[OF small[OF that]] obtain c t' where o: "obs x t = Some (c, t')" "evolves t t'" "spares t t'"
      by blast
    with that have "I t'" unfolding I_def by (blast intro: evolves_trans spares_trans)
    with o(1) show ?thesis by blast
  qed
  have arr: "\<exists>s'. observeArray obs xs ?s2 = Some s' \<and> I s'" for xs
    unfolding observeArray_def
  proof (rule each_inv[where I = I, OF _ I2])
    fix x t assume "I t"
    from step[OF this, of x] show "\<exists>t'. map_option snd (obs x t) = Some t' \<and> I t'" by auto
  qed
  have wlk: "\<exists>s'. walk obs a ?s2 = Some s' \<and> I s'"
    unfolding walk_def
  proof (rule each_inv[where I = I, OF _ I2])
    fix k t assume It: "I t"
    have "\<exists>c t'. obs x (snd (new_Dep t)) = Some (c, t') \<and> evolves (snd (new_Dep t)) t' \<and>
            spares (snd (new_Dep t)) t'" for x
    proof (rule obs)
      have "todo (snd (new_Dep t)) = todo t" by (simp add: todo_def new_Dep_def)
      with small[OF It] show "card (todo (snd (new_Dep t))) < card (todo s)" by simp
    qed
    from defineReactive_total[of obs t a k None False, OF this]
    obtain t' where t': "evolves t t'" "spares t t'"
       "defineReactive obs a k None False t = Some t' \<or>
        (\<exists>p. defineReactive obs a k None False t = Some (set_prop a k p t'))" by blast
    from It t'(1,2) have I': "I t'" unfolding I_def by (blast intro: evolves_trans spares_trans)
    have "I (set_prop a k p t')" for p
      using I' a(2) unfolding I_def set_prop_def
      by (auto intro: evolves_trans[OF _ evolves_set_prop[unfolded set_prop_def]] spares_upd_obj)
    with I' t'(3) show "\<exists>t'. defineReactive obs a k None False t = Some t' \<and> I t'" by auto
  qed
  have "\<exists>s'. new_Observer obs a s = Some s' \<and> I s'"
    using arr wlk by (simp add: new_Observer_def Let_def split_beta new_Dep_def[of s, simplified] )
  then obtain s' where s': "new_Observer obs a s = Some s'" "I s'" by blast
  from s'(2) have "evolves s s'" "spares s s'" using e by (auto simp: I_def intro: evolves_trans)
  moreover have "ob (heap s' ! a) \<noteq> None"
    using s'(2) mk a(1) len unfolding I_def evolves_def same_shape_def by auto
  ultimately show ?thesis using s'(1) by blast
qed

lemma observe_body_total:
  assumes obs: "\<And>x t. card (todo t) < card (todo s) \<Longrightarrow>
               \<exists>c t'. obs x t = Some (c, t') \<and> evolves t t' \<and> spares t t'"
  shows "\<exists>s'. observe_body obs v False s = Some (wrapped s v, s') \<and> evolves s s' \<and> spares s s' \<and>
           (\<forall>a. wrapped s v = Some a \<longrightarrow> ob (heap s' ! a) \<noteq> None)"
proof (cases v)
  case (Ref a)
  show ?thesis
  proof (cases "a < length (heap s)")
    case False
    with Ref show ?thesis by (simp add: observe_body_def wrapped_def obj_at_def)
  next
    case a: True
    let ?obj = "heap s ! a"
    show ?thesis
    proof (cases "shouldObserve s \<and> \<not> serverRendering s \<and> observable ?obj")
      case True
      then have o: "observable ?obj" by simp
      have "\<exists>s'. new_Observer obs a s = Some s' \<and> evolves s s' \<and> spares s s' \<and> ob (heap s' ! a) \<noteq> None"
        by (rule new_Observer_total[where obs = obs, OF a o]) (rule obs)
      then obtain s' where
        s': "new_Observer obs a s = Some s'" "evolves s s'" "spares s s'" "ob (heap s' ! a) \<noteq> None"
        by blast
      from True have "observe_body obs v False s = Some (Some a, s')"
        using Ref a s'(1) by (auto simp: observe_body_def obj_at_def observable_def)
      moreover from True have "wrapped s v = Some a"
        using Ref a by (auto simp: wrapped_def obj_at_def observable_def)
      ultimately show ?thesis using s' by simp
    next
      case False
      then have "observe_body obs v False s = Some (wrapped s v, s)"
        using Ref a by (auto simp: observe_body_def wrapped_def obj_at_def observable_def)
      moreover have "\<forall>b. wrapped s v = Some b \<longrightarrow> ob (heap s ! b) \<noteq> None"
        using False Ref a by (auto simp: wrapped_def obj_at_def split: if_splits)
      ultimately show ?thesis by simp
    qed
  qed
qed (simp_all add: observe_body_def wrapped_def)

lemma observe_fuel_total:
  "card (todo s) \<le> n \<Longrightarrow>
   \<exists>c s'. observe_fuel n v s = Some (c, s') \<and> evolves s s' \<and> spares s s'"
proof (induction n arbitrary: v s)
  case 0
  have "\<exists>s'. observe_body (\<lambda>_ _. None) v False s = Some (wrapped s v, s') \<and> evolves s s' \<and> spares s s' \<and>
           (\<forall>a. wrapped s v = Some a \<longrightarrow> ob (heap s' ! a) \<noteq> None)"
    by (rule observe_body_total) (use 0 in simp)
  then show ?case by auto
next
  case (Suc n)
  have "\<exists>s'. observe_body (observe_fuel n) v False s = Some (wrapped s v, s') \<and> evolves s s' \<and> spares s s' \<and>
           (\<forall>a. wrapped s v = Some a \<longrightarrow> ob (heap s' ! a) \<noteq> None)"
  proof (rule observe_body_total)
    fix x t assume "card (todo t) < card (todo s)"
    with Suc.prems have "card (todo t) \<le> n" by simp
    then show "\<exists>c t'. observe_fuel n x t = Some (c, t') \<and> evolves t t' \<and> spares t t'"
      by (rule Suc.IH)
  qed
  then show ?case by auto
qed

text \<open>
  \<open>observe\<close> returns, for every value and every state, and it changes no object other
  than those it gives an observer.
\<close>

lemma observe_total:
  "\<exists>s'. observe v False s = Some (wrapped s v, s') \<and> evolves s s' \<and> spares s s' \<and> wraps s s' \<and>
     (\<forall>a. wrapped s v = Some a \<longrightarrow> ob (heap s' ! a) \<noteq> None)"
proof -
  have "\<exists>s'. observe_body (observe_fuel (length (heap s))) v False s = Some (wrapped s v, s') \<and>
          evolves s s' \<and> spares s s' \<and> (\<forall>a. wrapped s v = Some a \<longrightarrow> ob (heap s' ! a) \<noteq> None)"
  proof (rule observe_body_total)
    fix x t assume "card (todo t) < card (todo s)"
    with card_todo_le[of s] have "card (todo t) \<le> length (heap s)" by simp
    then show "\<exists>c t'. observe_fuel (length (heap s)) x t = Some (c, t') \<and> evolves t t' \<and> spares t t'"
      by (rule observe_fuel_total)
  qed
  then show ?thesis unfolding observe_def[symmetric] by (auto dest: observe_wraps)
qed

lemma observe_body_None:
  "observe_body obs v b s = None \<longleftrightarrow> observe_body obs v False s = None"
  by (auto simp: observe_body_def split: val.splits option.splits if_splits)

lemma observe_returns: "observe v b s \<noteq> None"
  using observe_total[of v s] observe_body_None[of "observe_fuel (length (heap s))" v b s]
  by (auto simp: observe_def)




lemma wrapped_set_prop [simp]: "wrapped (set_prop a k p s) v = wrapped s v"
proof (cases v)
  case (Ref b)
  then show ?thesis
    by (cases "b < length (heap s)")
       (auto simp: wrapped_def obj_at_def set_prop_def upd_obj_def observable_def nth_upd)
qed (simp_all add: wrapped_def)








end
